theory Spec2Isabelle
  imports Main "HOL-Library.Word"
begin

section \<open>The sequence custom backend (src/custom/sequence/sequence.cc)\<close>

text \<open>
  The backend keeps one INT32 accumulator per batch slot. Every call of
  \<open>Context::Execute\<close> receives one payload per active sequence, reads the control
  tensors START and READY and the value tensor INPUT of each payload through a pull
  callback, updates the accumulator of the payload's slot and hands the new value to an
  output callback.

  Conventions of the embedding:
  \<^item> a byte is an \<open>8 word\<close>, an \<open>int32_t\<close> a \<open>32 word\<close>; \<open>+\<close> on words wraps
    around, which is what the compiled code does on \<open>accumulator_[pidx] += input[e]\<close>;
  \<^item> \<open>reinterpret_cast<int32_t*>\<close> reads four bytes in the host's byte order, taken
    to be little-endian;
  \<^item> byte counts (\<open>uint64_t total_content_byte_size\<close>, \<open>size_t expected_byte_size\<close>)
    are natural numbers. The running total never exceeds the expected size before a
    chunk is added, and it is the size of the vector already held in memory next to the
    chunk, so \<open>total + content_byte_size\<close> stays below \<open>2 ^ 64\<close> and cannot wrap.
    The product \<open>input_element_cnt * batch1_byte_size\<close> is taken modulo \<open>2 ^ 64\<close>;
  \<^item> the two callbacks are external. What they answer is part of the payload: the
    \<open>input_context\<close> holds, for each input name, the replies that \<open>input_fn\<close> still
    has to give, and the \<open>output_context\<close> the reply of \<open>output_fn\<close>;
  \<^item> a read outside a buffer is undefined behaviour of the C++ program; the functions
    that can reach one return \<open>None\<close> there. Forming the pointer \<open>&buffer[0]\<close> reads
    nothing and is taken to be harmless, also for an empty vector;
  \<^item> what is written to \<open>std::cout\<close> is not recorded; the read that line 210 makes
    of a chunk in order to print it is part of the model.
\<close>

type_synonym byte = "8 word"
type_synonym int32 = "32 word"

subsection \<open>Error codes\<close>

text \<open>\<open>ErrorCodes::Success\<close> and the codes the class registers with \<open>RegisterError\<close>.\<close>

datatype error =
    Success
  | kGpuNotSupported
  | kSequenceBatcher
  | kModelControl
  | kInput
  | kOutput
  | kInputName
  | kOutputName
  | kInputOutputDataType
  | kInputContents
  | kInputSize
  | kOutputBuffer
  | kBatchTooBig
  | kTimesteps

subsection \<open>Reading an \<open>int32_t\<close> from bytes\<close>

text \<open>
  \<open>p[e]\<close> for \<open>p = reinterpret_cast<int32_t*>(bytes)\<close>: the four bytes from offset
  \<open>4 * e\<close>, least significant first; undefined when they are not all inside the
  bytes that \<open>p\<close> points to.
\<close>

definition read_int32 :: "byte list \<Rightarrow> nat \<Rightarrow> int32 option" where
  "read_int32 buffer e =
     (case take 4 (drop (4 * e) buffer) of
        [b0, b1, b2, b3] \<Rightarrow>
          Some (ucast b0 + 256 * ucast b1 + 65536 * ucast b2 + 16777216 * ucast b3)
      | _ \<Rightarrow> None)"

subsection \<open>The pull callback and \<open>Context::GetInputTensor\<close>\<close>

text \<open>
  One call of \<open>input_fn\<close> either fails (returns false), or delivers a chunk
  (\<open>content\<close> with its \<open>content_byte_size\<close>), or returns \<open>content == nullptr\<close>:
  there is no more data. By the callback's contract a tensor comes in finitely many
  chunks and the callback answers \<open>nullptr\<close> once they are delivered. The replies still
  to come for one input name are therefore a list; the empty list is the source that
  has nothing left and answers \<open>nullptr\<close>. The size passed in through
  \<open>content_byte_size\<close> is a hint to the callback only; the list holds the replies as
  the callback gives them. (\<open>GetInputTensor_calls\<close> below is the loop against a source
  that need not keep to the contract.)
\<close>

datatype pull = PullFailed | Chunk "byte list"

text \<open>
  The \<open>while (true)\<close> loop of \<open>GetInputTensor\<close>. Arguments: the replies to come,
  \<open>expected_byte_size\<close>, \<open>total_content_byte_size\<close> (\<open>tot\<close>) and the vector \<open>*input\<close>.
  Result: the error code, \<open>*input\<close> as the function leaves it, and the replies that
  were not asked for. For every chunk, before its size is looked at, line 210 reads
  \<open>reinterpret_cast<const int32_t*>(content)[0]\<close> to print it: four bytes of the
  chunk, which a chunk of fewer than four bytes does not have; the loop has no defined
  result then.
\<close>

fun GetInputTensor_loop ::
  "pull list \<Rightarrow> nat \<Rightarrow> nat \<Rightarrow> byte list \<Rightarrow> (error \<times> byte list \<times> pull list) option"
where
  "GetInputTensor_loop [] expected tot input =
     (if tot \<noteq> expected then Some (kInputSize, input, []) else Some (Success, input, []))"
| "GetInputTensor_loop (PullFailed # rest) expected tot input =
     Some (kInputContents, input, rest)"
| "GetInputTensor_loop (Chunk content # rest) expected tot input =
     (case read_int32 content 0 of
        None \<Rightarrow> None
      | Some printed \<Rightarrow>
          (let tot' = tot + length content in
           if tot' > expected then Some (kInputSize, input, rest)
           else GetInputTensor_loop rest expected tot' (input @ content)))"

text \<open>
  \<open>GetInputTensor(input_fn, input_context, name, expected_byte_size, input)\<close>: the
  total starts at 0; the replies for \<open>name\<close> are consumed from the input context.
\<close>

definition GetInputTensor ::
  "(string \<Rightarrow> pull list) \<Rightarrow> string \<Rightarrow> nat \<Rightarrow> byte list
     \<Rightarrow> (error \<times> byte list \<times> (string \<Rightarrow> pull list)) option"
where
  "GetInputTensor input_context name expected_byte_size input =
     (case GetInputTensor_loop (input_context name) expected_byte_size 0 input of
        None \<Rightarrow> None
      | Some (err, input', rest) \<Rightarrow> Some (err, input', input_context(name := rest)))"

text \<open>The number of bytes a list of chunks delivers.\<close>

definition delivered :: "byte list list \<Rightarrow> nat" where
  "delivered cs = length (concat cs)"

subsection \<open>\<open>GetInputTensor\<close> against an arbitrary source\<close>

text \<open>
  A source that need not keep to the contract: call number \<open>n\<close> of \<open>input_fn\<close> gets the
  reply \<open>source n\<close>, and nothing says that a null reply ever comes. \<open>fuel\<close> bounds
  the number of calls. The result \<open>OutOfFuel\<close> says that the loop did not return within
  them, \<open>Undefined\<close> that it read outside a chunk, \<open>Returned\<close> gives the error code
  and the vector.
\<close>

datatype reply = ReplyFailed | ReplyNull | ReplyChunk "byte list"

datatype run = OutOfFuel | Undefined | Returned error "byte list"

fun GetInputTensor_calls ::
  "nat \<Rightarrow> (nat \<Rightarrow> reply) \<Rightarrow> nat \<Rightarrow> nat \<Rightarrow> nat \<Rightarrow> byte list \<Rightarrow> run"
where
  "GetInputTensor_calls 0 source n expected tot input = OutOfFuel"
| "GetInputTensor_calls (Suc fuel) source n expected tot input =
     (case source n of
        ReplyFailed \<Rightarrow> Returned kInputContents input
      | ReplyNull \<Rightarrow> Returned (if tot \<noteq> expected then kInputSize else Success) input
      | ReplyChunk content \<Rightarrow>
          (case read_int32 content 0 of
             None \<Rightarrow> Undefined
           | Some printed \<Rightarrow>
               (let tot' = tot + length content in
                if tot' > expected then Returned kInputSize input
                else GetInputTensor_calls fuel source (Suc n) expected tot' (input @ content))))"

text \<open>The source that gives the replies of a list and null replies from then on.\<close>

definition replies_of :: "pull list \<Rightarrow> nat \<Rightarrow> reply" where
  "replies_of script n =
     (if n < length script
      then (case script ! n of PullFailed \<Rightarrow> ReplyFailed | Chunk content \<Rightarrow> ReplyChunk content)
      else ReplyNull)"

subsection \<open>Payloads, the output callback and the context\<close>

text \<open>
  What one call of \<open>output_fn\<close> answers: false, true with \<open>obuffer == nullptr\<close>, or
  true with a buffer to write into.
\<close>

datatype sink_reply = SinkFailed | SinkNull | SinkBuffer

text \<open>
  What the backend does to the output side of a payload: a call of \<open>output_fn\<close> with
  the output's name, the shape and the element byte size, and the \<open>memcpy\<close> of the
  output value into the buffer that the call returned.
\<close>

datatype output_event = GetOutput string "int list" nat | Memcpy int32

text \<open>
  \<open>CustomPayload\<close>. The parallel arrays \<open>input_names\<close> and \<open>input_shape_dims\<close>
  (\<open>input_cnt\<close> entries) are the list \<open>inputs\<close>; \<open>output_cnt\<close> is the length of
  \<open>required_output_names\<close>. The \<open>input_context\<close> holds the replies of \<open>input_fn\<close>
  still to come for each input name, the \<open>output_context\<close> the reply of \<open>output_fn\<close>
  to a call, and \<open>output_log\<close> what has been done through it.
\<close>

record CustomPayload =
  batch_size :: nat
  inputs :: "(string \<times> int list) list"
  input_context :: "string \<Rightarrow> pull list"
  required_output_names :: "string list"
  output_context :: "string \<Rightarrow> int list \<Rightarrow> nat \<Rightarrow> sink_reply"
  output_log :: "output_event list"
  error_code :: error

text \<open>
  The members of \<open>Context\<close> that \<open>Execute\<close> uses: \<open>model_config_.max_batch_size()\<close>,
  \<open>execute_delay_ms_\<close> and \<open>accumulator_\<close>. The constructor sizes the accumulators
  with \<open>resize(std::max(1, max_batch_size))\<close>, which fills them with zeros.
\<close>

record Context =
  max_batch_size :: int
  execute_delay_ms :: int
  accumulator :: "int32 list"

definition Context_new :: "int \<Rightarrow> int \<Rightarrow> Context" where
  "Context_new mbs delay =
     \<lparr>max_batch_size = mbs, execute_delay_ms = delay,
      accumulator = replicate (nat (max 1 mbs)) 0\<rparr>"

subsection \<open>\<open>Context::Execute\<close>\<close>

text \<open>\<open>GetDataTypeByteSize(TYPE_INT32)\<close>.\<close>

definition batch1_byte_size :: nat where
  "batch1_byte_size = 4"

text \<open>
  \<open>input_element_cnt * batch1_byte_size\<close> as a \<open>size_t\<close>: the \<open>int64_t\<close> count is
  converted to 64 bits unsigned and the product wraps.
\<close>

definition input_byte_size :: "int \<Rightarrow> nat" where
  "input_byte_size cnt = nat ((cnt * int batch1_byte_size) mod 2 ^ 64)"

text \<open>
  The loop that looks for the input named INPUT and takes \<open>input_shape_dims[idx][0]\<close>;
  the count stays 0 when no input has that name. An input INPUT without a dimension
  makes the read of element 0 of its shape undefined.
\<close>

fun input_element_cnt :: "(string \<times> int list) list \<Rightarrow> int option" where
  "input_element_cnt [] = Some 0"
| "input_element_cnt ((name, dims) # rest) =
     (if name = ''INPUT'' then (case dims of [] \<Rightarrow> None | d # _ \<Rightarrow> Some d)
      else input_element_cnt rest)"

text \<open>\<open>for (e ...) accumulator_[pidx] += input[e]\<close> over the indices \<open>es\<close>.\<close>

fun add_elements :: "byte list \<Rightarrow> nat list \<Rightarrow> int32 \<Rightarrow> int32 option" where
  "add_elements input [] a = Some a"
| "add_elements input (e # es) a =
     (case read_int32 input e of None \<Rightarrow> None | Some v \<Rightarrow> add_elements input es (a + v))"

text \<open>
  Lines 306 to 317: with \<open>start[0] == 0\<close> the elements 0 to \<open>input_element_cnt - 1\<close>
  are added to the accumulator \<open>a\<close>; otherwise the accumulator is set to \<open>input[0]\<close> and
  the elements from 1 on are added.
\<close>

definition update_accumulator :: "int32 \<Rightarrow> int32 \<Rightarrow> int \<Rightarrow> byte list \<Rightarrow> int32 option" where
  "update_accumulator start a cnt input =
     (if start = 0 then add_elements input [0..<nat cnt] a
      else (case read_int32 input 0 of
              None \<Rightarrow> None
            | Some v \<Rightarrow> add_elements input [1..<nat cnt] v))"

text \<open>
  Lines 323 to 349: when the payload has no error and requests an output, \<open>output_fn\<close>
  is called for the first requested output with the shape \<open>[1, input_element_cnt]\<close>, or
  \<open>[input_element_cnt]\<close> when the model's max batch size is 0; a failed call sets
  \<open>kOutputBuffer\<close>, a null buffer is left alone, any other buffer receives the output.
\<close>

definition write_output :: "int \<Rightarrow> int \<Rightarrow> int32 \<Rightarrow> CustomPayload \<Rightarrow> CustomPayload" where
  "write_output mbs cnt output payload =
     (if error_code payload = Success \<and> length (required_output_names payload) > 0 then
        let output_name = hd (required_output_names payload);
            shape = (if mbs \<noteq> 0 then [1] else []) @ [cnt];
            call = GetOutput output_name shape batch1_byte_size
        in (case output_context payload output_name shape batch1_byte_size of
              SinkFailed \<Rightarrow>
                payload\<lparr>output_log := output_log payload @ [call], error_code := kOutputBuffer\<rparr>
            | SinkNull \<Rightarrow>
                payload\<lparr>output_log := output_log payload @ [call]\<rparr>
            | SinkBuffer \<Rightarrow>
                payload\<lparr>output_log := output_log payload @ [call, Memcpy output]\<rparr>)
      else payload)"

text \<open>
  Lines 299 to 350, after the three tensors have been read: nothing happens unless
  \<open>ready[0] != 0\<close>; then the accumulator of slot \<open>pidx\<close> is updated and its new value
  is the output.
\<close>

definition sequence_step ::
  "int \<Rightarrow> nat \<Rightarrow> int32 list \<Rightarrow> CustomPayload \<Rightarrow> int \<Rightarrow> byte list \<Rightarrow> byte list \<Rightarrow> byte list
     \<Rightarrow> (int32 list \<times> CustomPayload) option"
where
  "sequence_step mbs pidx acc payload cnt start_buffer ready_buffer input_buffer =
     (case read_int32 ready_buffer 0 of
        None \<Rightarrow> None
      | Some ready \<Rightarrow>
          if ready \<noteq> 0 then
            (case read_int32 start_buffer 0 of
               None \<Rightarrow> None
             | Some start \<Rightarrow>
                 if pidx < length acc then
                   (case update_accumulator start (acc ! pidx) cnt input_buffer of
                      None \<Rightarrow> None
                    | Some output \<Rightarrow>
                        Some (acc[pidx := output], write_output mbs cnt output payload))
                 else None)
          else Some (acc, payload))"

text \<open>
  The body of the loop over the payloads (lines 256 to 350). Every \<open>continue\<close> leaves
  the accumulators as they are and the payload with its error code. A call of
  \<open>GetInputTensor\<close> without a defined result leaves the body without one.
\<close>

definition Execute_payload ::
  "int \<Rightarrow> nat \<Rightarrow> int32 list \<Rightarrow> CustomPayload \<Rightarrow> (int32 list \<times> CustomPayload) option"
where
  "Execute_payload mbs pidx acc payload =
     (if batch_size payload \<noteq> 1 then Some (acc, payload\<lparr>error_code := kTimesteps\<rparr>)
      else
        (case input_element_cnt (inputs payload) of
           None \<Rightarrow> None
         | Some cnt \<Rightarrow>
             (case GetInputTensor (input_context payload) ''START'' batch1_byte_size [] of
                None \<Rightarrow> None
              | Some (err, start_buffer, ictx1) \<Rightarrow>
                  if err \<noteq> Success
                  then Some (acc, payload\<lparr>input_context := ictx1, error_code := err\<rparr>)
                  else
                    (case GetInputTensor ictx1 ''READY'' batch1_byte_size [] of
                       None \<Rightarrow> None
                     | Some (err, ready_buffer, ictx2) \<Rightarrow>
                         if err \<noteq> Success
                         then Some (acc, payload\<lparr>input_context := ictx2, error_code := err\<rparr>)
                         else
                           (case GetInputTensor ictx2 ''INPUT'' (input_byte_size cnt) [] of
                              None \<Rightarrow> None
                            | Some (err, input_buffer, ictx3) \<Rightarrow>
                                if err \<noteq> Success
                                then Some (acc, payload\<lparr>input_context := ictx3, error_code := err\<rparr>)
                                else sequence_step mbs pidx acc
                                       (payload\<lparr>input_context := ictx3\<rparr>) cnt
                                       start_buffer ready_buffer input_buffer)))))"

text \<open>\<open>for (pidx = ...; pidx < payload_cnt; ++pidx)\<close> over the payloads from \<open>pidx\<close> on.\<close>

fun Execute_loop ::
  "int \<Rightarrow> nat \<Rightarrow> CustomPayload list \<Rightarrow> int32 list \<Rightarrow> (int32 list \<times> CustomPayload list) option"
where
  "Execute_loop mbs pidx [] acc = Some (acc, [])"
| "Execute_loop mbs pidx (payload # rest) acc =
     (case Execute_payload mbs pidx acc payload of
        None \<Rightarrow> None
      | Some (acc', payload') \<Rightarrow>
          (case Execute_loop mbs (Suc pidx) rest acc' of
             None \<Rightarrow> None
           | Some (acc'', rest') \<Rightarrow> Some (acc'', payload' # rest')))"

text \<open>
  What a call of \<open>Execute\<close> leaves behind: the returned code, the context, the payloads
  (with their error codes, consumed inputs and output logs) and the time slept.
\<close>

record ExecuteResult =
  ret :: error
  context_out :: Context
  payloads_out :: "CustomPayload list"
  slept_ms :: int

text \<open>
  \<open>Execute(payload_cnt, payloads, input_fn, output_fn)\<close>, with \<open>payload_cnt\<close> the
  length of the list. \<open>None\<close>: the call ran into undefined behaviour.
\<close>

definition Execute :: "Context \<Rightarrow> CustomPayload list \<Rightarrow> ExecuteResult option" where
  "Execute ctx payloads =
     (if length payloads > length (accumulator ctx)
      then Some \<lparr>ret = kBatchTooBig, context_out = ctx, payloads_out = payloads, slept_ms = 0\<rparr>
      else
        (case Execute_loop (max_batch_size ctx) 0 payloads (accumulator ctx) of
           None \<Rightarrow> None
         | Some (acc', payloads') \<Rightarrow>
             Some \<lparr>ret = Success, context_out = ctx\<lparr>accumulator := acc'\<rparr>,
                   payloads_out = payloads',
                   slept_ms = (if execute_delay_ms ctx > 0 then execute_delay_ms ctx else 0)\<rparr>))"

subsection \<open>Running a sequence of calls\<close>

text \<open>
  The context lives across calls of \<open>Execute\<close>: each call starts from the context the
  call before left. The result lists what every call left behind.
\<close>

fun Execute_calls :: "Context \<Rightarrow> CustomPayload list list \<Rightarrow> ExecuteResult list option" where
  "Execute_calls ctx [] = Some []"
| "Execute_calls ctx (payloads # calls) =
     (case Execute ctx payloads of
        None \<Rightarrow> None
      | Some r \<Rightarrow>
          (case Execute_calls (context_out r) calls of
             None \<Rightarrow> None
           | Some rs \<Rightarrow> Some (r # rs)))"

section \<open>Notions used to state the properties\<close>

subsection \<open>What a source delivers\<close>

text \<open>
  Every chunk of the source holds at least the four bytes that line 210 reads.
\<close>

definition whole_chunks :: "byte list list \<Rightarrow> bool" where
  "whole_chunks cs \<longleftrightarrow> list_all (\<lambda>c. 4 \<le> length c) cs"

text \<open>The chunks that a source holds.\<close>

fun chunks_of :: "pull list \<Rightarrow> byte list list" where
  "chunks_of [] = []"
| "chunks_of (PullFailed # rest) = chunks_of rest"
| "chunks_of (Chunk c # rest) = c # chunks_of rest"

text \<open>
  The ways a source can behave against an expected byte size. \<open>source_read_error\<close>:
  a call of \<open>input_fn\<close> fails after chunks that fit. \<open>size_exceeded\<close>: a chunk takes
  the running total beyond the expected size, the chunks before it fit.
  \<open>size_mismatch\<close>: the source ends after chunks that do not reach the expected size.
  \<open>fully_delivered\<close>: the source ends after chunks of exactly the expected size.
\<close>

definition source_read_error :: "pull list \<Rightarrow> nat \<Rightarrow> bool" where
  "source_read_error src expected \<longleftrightarrow>
     (\<exists>pre rest. src = map Chunk pre @ PullFailed # rest \<and> delivered pre \<le> expected)"

definition size_exceeded :: "pull list \<Rightarrow> nat \<Rightarrow> bool" where
  "size_exceeded src expected \<longleftrightarrow>
     (\<exists>pre c rest. src = map Chunk pre @ Chunk c # rest \<and> delivered pre \<le> expected
        \<and> expected < delivered (pre @ [c]))"

definition size_mismatch :: "pull list \<Rightarrow> nat \<Rightarrow> bool" where
  "size_mismatch src expected \<longleftrightarrow> (\<exists>cs. src = map Chunk cs \<and> delivered cs < expected)"

definition fully_delivered :: "pull list \<Rightarrow> nat \<Rightarrow> bool" where
  "fully_delivered src expected \<longleftrightarrow> (\<exists>cs. src = map Chunk cs \<and> delivered cs = expected)"

subsection \<open>Tensors as bytes\<close>

text \<open>The four bytes of an \<open>int32_t\<close> in memory, and the bytes of a vector of them.\<close>

definition int32_bytes :: "int32 \<Rightarrow> byte list" where
  "int32_bytes v = [ucast v, ucast (drop_bit 8 v), ucast (drop_bit 16 v), ucast (drop_bit 24 v)]"

definition tensor_bytes :: "int32 list \<Rightarrow> byte list" where
  "tensor_bytes xs = concat (map int32_bytes xs)"

text \<open>The \<open>int32_t\<close> elements that a buffer holds, four bytes each.\<close>

fun int32s :: "byte list \<Rightarrow> int32 list" where
  "int32s (b0 # b1 # b2 # b3 # rest) =
     (ucast b0 + 256 * ucast b1 + 65536 * ucast b2 + 16777216 * ucast b3) # int32s rest"
| "int32s _ = []"

subsection \<open>One payload on its own\<close>

text \<open>
  What \<open>GetInputTensor\<close> makes of the input \<open>name\<close> of a payload, asked for as the
  first thing: the error code and the vector, when the call has a defined result.
\<close>

definition assembly :: "CustomPayload \<Rightarrow> string \<Rightarrow> nat \<Rightarrow> (error \<times> byte list) option" where
  "assembly p name expected =
     map_option (\<lambda>(err, buffer, ictx). (err, buffer))
       (GetInputTensor (input_context p) name expected [])"

text \<open>The call has a defined result, which is an error.\<close>

definition assembly_fails :: "CustomPayload \<Rightarrow> string \<Rightarrow> nat \<Rightarrow> bool" where
  "assembly_fails p name expected \<longleftrightarrow>
     (case assembly p name expected of None \<Rightarrow> False | Some (err, buffer) \<Rightarrow> err \<noteq> Success)"

text \<open>The three tensors of the payload assemble to the given buffers.\<close>

definition assembles :: "CustomPayload \<Rightarrow> int \<Rightarrow> byte list \<Rightarrow> byte list \<Rightarrow> byte list \<Rightarrow> bool" where
  "assembles p cnt start_buffer ready_buffer input_buffer \<longleftrightarrow>
     batch_size p = 1 \<and> input_element_cnt (inputs p) = Some cnt \<and>
     assembly p ''START'' batch1_byte_size = Some (Success, start_buffer) \<and>
     assembly p ''READY'' batch1_byte_size = Some (Success, ready_buffer) \<and>
     assembly p ''INPUT'' (input_byte_size cnt) = Some (Success, input_buffer)"

text \<open>
  The payload takes one of the \<open>continue\<close> exits before the accumulator is touched:
  its batch size is not 1, or, in the order of the calls, one of START, READY and INPUT
  is the first not to assemble and the calls up to it have defined results.
\<close>

definition fails_before_update :: "CustomPayload \<Rightarrow> bool" where
  "fails_before_update p \<longleftrightarrow>
     (if batch_size p \<noteq> 1 then True
      else (case input_element_cnt (inputs p) of
              None \<Rightarrow> False
            | Some cnt \<Rightarrow>
                if assembly_fails p ''START'' batch1_byte_size then True
                else if assembly p ''START'' batch1_byte_size = None then False
                else if assembly_fails p ''READY'' batch1_byte_size then True
                else if assembly p ''READY'' batch1_byte_size = None then False
                else assembly_fails p ''INPUT'' (input_byte_size cnt)))"

text \<open>The loop body on a store that has the one slot \<open>a\<close>.\<close>

definition Execute_slot :: "int \<Rightarrow> int32 \<Rightarrow> CustomPayload \<Rightarrow> (int32 \<times> CustomPayload) option" where
  "Execute_slot mbs a p =
     map_option (\<lambda>(acc', p'). (acc' ! 0, p')) (Execute_payload mbs 0 [a] p)"

text \<open>
  The invariant of a context that the constructor sets up: one accumulator per batch
  position, at least one.
\<close>

definition Context_ok :: "Context \<Rightarrow> bool" where
  "Context_ok ctx \<longleftrightarrow> length (accumulator ctx) = nat (max 1 (max_batch_size ctx))"

subsection \<open>Sample requests\<close>

text \<open>
  A source that delivers the bytes of START, READY and INPUT in the given chunks and
  nothing for any other name.
\<close>

definition chunked_source ::
  "byte list list \<Rightarrow> byte list list \<Rightarrow> byte list list \<Rightarrow> string \<Rightarrow> pull list"
where
  "chunked_source start_chunks ready_chunks input_chunks name =
     (if name = ''START'' then map Chunk start_chunks
      else if name = ''READY'' then map Chunk ready_chunks
      else if name = ''INPUT'' then map Chunk input_chunks
      else [])"

text \<open>
  A payload for one timestep with the control values \<open>start\<close> and \<open>ready\<close> and the
  INPUT vector \<open>xs\<close>, every tensor delivered in one chunk (an INPUT without elements
  in none: the source answers null at once), that requests OUTPUT from a sink that
  hands out a buffer.
\<close>

definition request :: "int32 \<Rightarrow> int32 \<Rightarrow> int32 list \<Rightarrow> CustomPayload" where
  "request start ready xs =
     \<lparr>batch_size = 1, inputs = [(''INPUT'', [int (length xs)])],
      input_context = chunked_source [int32_bytes start] [int32_bytes ready]
        (if xs = [] then [] else [tensor_bytes xs]),
      required_output_names = [''OUTPUT''],
      output_context = (\<lambda>name shape byte_size. SinkBuffer),
      output_log = [], error_code = Success\<rparr>"

text \<open>
  Processing the payload in slot \<open>pidx\<close> is defined and leaves it with one of the
  per-payload error codes.
\<close>

definition records_failure :: "int \<Rightarrow> nat \<Rightarrow> int32 list \<Rightarrow> CustomPayload \<Rightarrow> bool" where
  "records_failure mbs pidx acc p \<longleftrightarrow>
     (case Execute_payload mbs pidx acc p of
        None \<Rightarrow> False
      | Some (acc', p') \<Rightarrow> error_code p' \<in> {kTimesteps, kInputContents, kInputSize, kOutputBuffer})"

text \<open>
  A payload that declares an INPUT of five elements while its source delivers four
  and ends.
\<close>

definition short_request :: CustomPayload where
  "short_request = (request 0 1 [1, 2, 3, 4])\<lparr>inputs := [(''INPUT'', [5])]\<rparr>"


subsection \<open>Steps of a sequence\<close>

text \<open>The payload after its three tensors have been read to the end.\<close>

definition consumed :: "CustomPayload \<Rightarrow> CustomPayload" where
  "consumed p = p\<lparr>input_context := (input_context p)(''START'' := [], ''READY'' := [], ''INPUT'' := [])\<rparr>"

text \<open>
  The payload is a step with the control values \<open>start\<close> and \<open>ready\<close> (as truth values:
  non-zero is true) and the INPUT vector \<open>xs\<close>: it has batch size 1, declares as many
  elements as \<open>xs\<close> has, its tensors assemble, element 0 of START and READY are the
  control values and the INPUT buffer holds \<open>xs\<close>.
\<close>

definition is_step :: "CustomPayload \<Rightarrow> bool \<Rightarrow> bool \<Rightarrow> int32 list \<Rightarrow> bool" where
  "is_step p start ready xs \<longleftrightarrow>
     length xs < 2 ^ 62 \<and>
     (case (assembly p ''START'' batch1_byte_size, assembly p ''READY'' batch1_byte_size,
            assembly p ''INPUT'' (length xs * batch1_byte_size)) of
        (Some (err1, start_buffer), Some (err2, ready_buffer), Some (err3, input_buffer)) \<Rightarrow>
          assembles p (int (length xs)) start_buffer ready_buffer input_buffer \<and>
          (case read_int32 start_buffer 0 of None \<Rightarrow> False | Some s \<Rightarrow> (s \<noteq> 0) = start) \<and>
          (case read_int32 ready_buffer 0 of None \<Rightarrow> False | Some r \<Rightarrow> (r \<noteq> 0) = ready) \<and>
          int32s input_buffer = xs
      | _ \<Rightarrow> False)"

section \<open>Properties of \<open>GetInputTensor\<close>\<close>

lemma delivered_simps [simp]:
  "delivered [] = 0" "delivered (c # cs) = length c + delivered cs"
  "delivered (cs @ ds) = delivered cs + delivered ds"
  by (simp_all add: delivered_def)

lemma whole_chunks_simps [simp]:
  "whole_chunks []" "whole_chunks (c # cs) \<longleftrightarrow> 4 \<le> length c \<and> whole_chunks cs"
  "whole_chunks (cs @ ds) \<longleftrightarrow> whole_chunks cs \<and> whole_chunks ds"
  by (simp_all add: whole_chunks_def)

lemma chunks_of_simps [simp]:
  "chunks_of (map Chunk cs) = cs"
  "chunks_of (map Chunk cs @ rest) = cs @ chunks_of rest"
  by (induction cs) simp_all

text \<open>The read of line 210 is defined exactly on chunks of four bytes or more.\<close>

lemma read_int32_chunk: "read_int32 c 0 = None \<longleftrightarrow> length c < 4"
proof (cases c)
  case Nil
  then show ?thesis by (simp add: read_int32_def)
next
  case c1: (Cons b0 r0)
  show ?thesis
  proof (cases r0)
    case Nil
    with c1 show ?thesis by (simp add: read_int32_def)
  next
    case c2: (Cons b1 r1)
    show ?thesis
    proof (cases r1)
      case Nil
      with c1 c2 show ?thesis by (simp add: read_int32_def)
    next
      case c3: (Cons b2 r2)
      show ?thesis
      proof (cases r2)
        case Nil
        with c1 c2 c3 show ?thesis by (simp add: read_int32_def)
      next
        case (Cons b3 r3)
        with c1 c2 c3 show ?thesis by (simp add: read_int32_def)
      qed
    qed
  qed
qed

lemma loop_whole_chunk:
  "4 \<le> length c \<Longrightarrow>
   GetInputTensor_loop (Chunk c # rest) expected tot input =
     (if tot + length c > expected then Some (kInputSize, input, rest)
      else GetInputTensor_loop rest expected (tot + length c) (input @ c))"
  using read_int32_chunk [of c] by (auto simp: Let_def split: option.splits)

lemma loop_short_chunk:
  "length c < 4 \<Longrightarrow> GetInputTensor_loop (Chunk c # rest) expected tot input = None"
  using read_int32_chunk [of c] by simp

text \<open>Chunks that fit are all appended, and the loop goes on behind them.\<close>

lemma loop_chunks:
  "whole_chunks cs \<Longrightarrow> tot + delivered cs \<le> expected \<Longrightarrow>
   GetInputTensor_loop (map Chunk cs @ rest) expected tot input =
   GetInputTensor_loop rest expected (tot + delivered cs) (input @ concat cs)"
proof (induction cs arbitrary: tot input)
  case Nil
  then show ?case by simp
next
  case (Cons c cs)
  from Cons.prems have w: "4 \<le> length c" "whole_chunks cs"
    and "tot + length c + delivered cs \<le> expected" by simp_all
  from Cons.IH [OF this(2,3)] Cons.prems w(1) show ?case
    by (simp add: loop_whole_chunk add.assoc del: GetInputTensor_loop.simps(3))
qed

lemma loop_read_error:
  "whole_chunks pre \<Longrightarrow> tot + delivered pre \<le> expected \<Longrightarrow>
   GetInputTensor_loop (map Chunk pre @ PullFailed # rest) expected tot input =
   Some (kInputContents, input @ concat pre, rest)"
  by (simp add: loop_chunks)

lemma loop_exceeded:
  "whole_chunks pre \<Longrightarrow> 4 \<le> length c \<Longrightarrow>
   tot + delivered pre \<le> expected \<Longrightarrow> expected < tot + delivered pre + length c \<Longrightarrow>
   GetInputTensor_loop (map Chunk pre @ Chunk c # rest) expected tot input =
   Some (kInputSize, input @ concat pre, rest)"
  by (simp add: loop_chunks loop_whole_chunk del: GetInputTensor_loop.simps(3))

lemma loop_short:
  "whole_chunks pre \<Longrightarrow> length c < 4 \<Longrightarrow> tot + delivered pre \<le> expected \<Longrightarrow>
   GetInputTensor_loop (map Chunk pre @ Chunk c # rest) expected tot input = None"
  by (simp add: loop_chunks loop_short_chunk del: GetInputTensor_loop.simps(3))

lemma loop_end:
  "whole_chunks cs \<Longrightarrow> tot + delivered cs \<le> expected \<Longrightarrow>
   GetInputTensor_loop (map Chunk cs) expected tot input =
   Some (if tot + delivered cs = expected then Success else kInputSize, input @ concat cs, [])"
  using loop_chunks [of cs tot expected "[]" input] by simp

text \<open>Among chunks that deliver too much, one is the first to go beyond the size.\<close>

lemma first_overflow:
  "expected < delivered cs \<Longrightarrow>
   \<exists>pre c post. cs = pre @ c # post \<and> delivered pre \<le> expected \<and> expected < delivered (pre @ [c])"
proof (induction cs rule: rev_induct)
  case Nil
  then show ?case by simp
next
  case (snoc c cs)
  show ?case
  proof (cases "expected < delivered cs")
    case True
    from snoc.IH [OF this] obtain pre d post where
      "cs = pre @ d # post" "delivered pre \<le> expected" "expected < delivered (pre @ [d])"
      by blast
    then have "cs @ [c] = pre @ d # (post @ [c])" by simp
    with \<open>delivered pre \<le> expected\<close> \<open>expected < delivered (pre @ [d])\<close> show ?thesis
      by blast
  next
    case False
    then have "delivered cs \<le> expected" by simp
    with snoc.prems show ?thesis by blast
  qed
qed

text \<open>A source is a run of chunks, followed by the end or by a failing call.\<close>

lemma source_shape:
  "(\<exists>cs. src = map Chunk cs) \<or> (\<exists>pre rest. src = map Chunk pre @ PullFailed # rest)"
proof (induction src)
  case Nil
  then show ?case by simp
next
  case (Cons r src)
  show ?case
  proof (cases r)
    case PullFailed
    then have "r # src = map Chunk [] @ PullFailed # src" by simp
    then have "\<exists>ds rest. r # src = map Chunk ds @ PullFailed # rest" by (intro exI)
    then show ?thesis by (rule disjI2)
  next
    case (Chunk c)
    from Cons.IH show ?thesis
    proof
      assume "\<exists>cs. src = map Chunk cs"
      then obtain cs where "src = map Chunk cs" ..
      with Chunk have "r # src = map Chunk (c # cs)" by simp
      then have "\<exists>ds. r # src = map Chunk ds" by (rule exI)
      then show ?thesis by (rule disjI1)
    next
      assume "\<exists>pre rest. src = map Chunk pre @ PullFailed # rest"
      then obtain pre rest where "src = map Chunk pre @ PullFailed # rest" by blast
      with Chunk have "r # src = map Chunk (c # pre) @ PullFailed # rest" by simp
      then have "\<exists>ds rest. r # src = map Chunk ds @ PullFailed # rest" by (intro exI)
      then show ?thesis by (rule disjI2)
    qed
  qed
qed

lemma source_cases:
  "source_read_error src expected \<or> size_exceeded src expected \<or> size_mismatch src expected
     \<or> fully_delivered src expected"
proof -
  from source_shape [of src] show ?thesis
  proof
    assume "\<exists>cs. src = map Chunk cs"
    then obtain cs where src: "src = map Chunk cs" ..
    show ?thesis
    proof (cases "expected < delivered cs")
      case True
      from first_overflow [OF this] obtain pre c post where
        "cs = pre @ c # post" "delivered pre \<le> expected" "expected < delivered (pre @ [c])"
        by blast
      with src have "size_exceeded src expected"
        unfolding size_exceeded_def
        by (intro exI [of _ pre] exI [of _ c] exI [of _ "map Chunk post"]) simp
      then show ?thesis by simp
    next
      case False
      then have "delivered cs < expected \<or> delivered cs = expected" by auto
      with src have "size_mismatch src expected \<or> fully_delivered src expected"
        unfolding size_mismatch_def fully_delivered_def
        by (elim disjE) (intro disjI1 exI conjI, assumption+, intro disjI2 exI conjI, assumption+)
      then show ?thesis by blast
    qed
  next
    assume "\<exists>pre rest. src = map Chunk pre @ PullFailed # rest"
    then obtain ps rest where src: "src = map Chunk ps @ PullFailed # rest" by blast
    show ?thesis
    proof (cases "expected < delivered ps")
      case True
      from first_overflow [OF this] obtain pre c post where
        "ps = pre @ c # post" "delivered pre \<le> expected" "expected < delivered (pre @ [c])"
        by blast
      with src have "size_exceeded src expected"
        unfolding size_exceeded_def
        by (intro exI [of _ pre] exI [of _ c] exI [of _ "map Chunk post @ PullFailed # rest"]) simp
      then show ?thesis by simp
    next
      case False
      with src have "source_read_error src expected"
        unfolding source_read_error_def by auto
      then show ?thesis by simp
    qed
  qed
qed

lemma loop_source_read_error:
  "whole_chunks (chunks_of src) \<Longrightarrow> source_read_error src expected \<Longrightarrow>
   \<exists>pre rest. src = map Chunk pre @ PullFailed # rest \<and>
     GetInputTensor_loop src expected 0 input = Some (kInputContents, input @ concat pre, rest)"
  unfolding source_read_error_def using loop_read_error [of _ 0 expected] by fastforce

lemma loop_size_exceeded:
  "whole_chunks (chunks_of src) \<Longrightarrow> size_exceeded src expected \<Longrightarrow>
   \<exists>pre c rest. src = map Chunk pre @ Chunk c # rest \<and>
     GetInputTensor_loop src expected 0 input = Some (kInputSize, input @ concat pre, rest)"
  unfolding size_exceeded_def using loop_exceeded [of _ _ 0 expected] by fastforce

lemma loop_size_mismatch:
  "whole_chunks (chunks_of src) \<Longrightarrow> size_mismatch src expected \<Longrightarrow>
   \<exists>cs. src = map Chunk cs \<and>
     GetInputTensor_loop src expected 0 input = Some (kInputSize, input @ concat cs, [])"
  unfolding size_mismatch_def using loop_end [of _ 0 expected] by fastforce

lemma loop_fully_delivered:
  "whole_chunks (chunks_of src) \<Longrightarrow> fully_delivered src expected \<Longrightarrow>
   \<exists>cs. src = map Chunk cs \<and> delivered cs = expected \<and>
     GetInputTensor_loop src expected 0 input = Some (Success, input @ concat cs, [])"
  unfolding fully_delivered_def using loop_end [of _ 0 expected] by fastforce

lemma GetInputTensor_eq:
  "GetInputTensor ictx name e inp =
     map_option (\<lambda>(err, buffer, rest). (err, buffer, ictx(name := rest)))
       (GetInputTensor_loop (ictx name) e 0 inp)"
  by (simp add: GetInputTensor_def split: option.splits)

text \<open>
  What \<open>GetInputTensor\<close> does with a source all of whose chunks have four bytes or
  more: it returns \<open>kInputContents\<close> exactly when a call of \<open>input_fn\<close> fails after
  chunks that fit; it returns \<open>kInputSize\<close> exactly when a chunk takes the running total
  beyond the expected size or the source ends below the expected size; in every other
  case, and only then, it returns \<open>Success\<close>, and then the source consisted of chunks of
  exactly the expected size in total, the vector holds their concatenation, and the
  source is used up. The code has the one code \<open>kInputSize\<close> for both size errors.
\<close>

lemma GetInputTensor_whole_chunks_outcome:
  assumes "whole_chunks (chunks_of (ictx name))"
  shows "\<exists>err buffer ictx'.
      GetInputTensor ictx name expected input = Some (err, buffer, ictx') \<and>
      (err = kInputContents \<longleftrightarrow> source_read_error (ictx name) expected) \<and>
      (err = kInputSize \<longleftrightarrow>
         size_exceeded (ictx name) expected \<or> size_mismatch (ictx name) expected) \<and>
      (err = Success \<longleftrightarrow>
         \<not> (source_read_error (ictx name) expected \<or> size_exceeded (ictx name) expected
            \<or> size_mismatch (ictx name) expected)) \<and>
      (err = Success \<longrightarrow>
         (\<exists>cs. ictx name = map Chunk cs \<and> delivered cs = expected \<and>
               buffer = input @ concat cs \<and> ictx' = ictx(name := [])))"
proof -
  let ?src = "ictx name"
  let ?loop = "GetInputTensor_loop ?src expected 0 input"
  have re: "source_read_error ?src expected \<Longrightarrow> \<exists>b r. ?loop = Some (kInputContents, b, r)"
    using loop_source_read_error [OF assms, of expected input] by auto
  have ex: "size_exceeded ?src expected \<Longrightarrow> \<exists>b r. ?loop = Some (kInputSize, b, r)"
    using loop_size_exceeded [OF assms, of expected input] by auto
  have mi: "size_mismatch ?src expected \<Longrightarrow> \<exists>b r. ?loop = Some (kInputSize, b, r)"
    using loop_size_mismatch [OF assms, of expected input] by auto
  have fu: "fully_delivered ?src expected \<Longrightarrow>
      \<exists>cs. ?src = map Chunk cs \<and> delivered cs = expected \<and>
        ?loop = Some (Success, input @ concat cs, [])"
    using loop_fully_delivered [OF assms, of expected input] by auto
  from source_cases [of ?src expected]
  consider (a) "source_read_error ?src expected" | (b) "size_exceeded ?src expected"
    | (c) "size_mismatch ?src expected" | (d) "fully_delivered ?src expected"
    by blast
  then show ?thesis
  proof cases
    case a
    with re obtain b r where e: "?loop = Some (kInputContents, b, r)" by blast
    with ex mi have "\<not> size_exceeded ?src expected" "\<not> size_mismatch ?src expected" by auto
    with a e show ?thesis by (simp add: GetInputTensor_eq)
  next
    case b
    with ex obtain bf r where e: "?loop = Some (kInputSize, bf, r)" by blast
    with re have "\<not> source_read_error ?src expected" by auto
    with b e show ?thesis by (simp add: GetInputTensor_eq)
  next
    case c
    with mi obtain bf r where e: "?loop = Some (kInputSize, bf, r)" by blast
    with re have "\<not> source_read_error ?src expected" by auto
    with c e show ?thesis by (simp add: GetInputTensor_eq)
  next
    case d
    from fu [OF d] obtain cs where cs: "?src = map Chunk cs" "delivered cs = expected"
      "?loop = Some (Success, input @ concat cs, [])" by blast
    with re ex mi have "\<not> source_read_error ?src expected" "\<not> size_exceeded ?src expected"
      "\<not> size_mismatch ?src expected" by auto
    moreover from cs have "\<exists>ds. ?src = map Chunk ds \<and> delivered ds = expected \<and>
        input @ concat cs = input @ concat ds \<and> ictx(name := []) = ictx(name := [])"
      by (intro exI [of _ cs]) simp
    ultimately show ?thesis using cs(3) by (simp add: GetInputTensor_eq)
  qed
qed

text \<open>
  With chunks of four bytes or more, the overflowing one included: the call that
  delivers the overflowing chunk returns \<open>kInputSize\<close>, the replies behind it stay in the
  source, and the vector holds the chunks before it only.
\<close>

lemma GetInputTensor_whole_chunks_overflow:
  assumes "ictx name = map Chunk pre @ Chunk c # rest"
    and "whole_chunks pre" and "4 \<le> length c"
    and "delivered pre \<le> expected"
    and "expected < delivered pre + length c"
  shows "GetInputTensor ictx name expected input =
           Some (kInputSize, input @ concat pre, ictx(name := rest))"
  using assms loop_exceeded [of pre c 0 expected rest input]
  by (simp add: GetInputTensor_eq)

text \<open>
  A chunk of fewer than four bytes that the loop comes to, overflowing or not, leaves
  the call without a defined result.
\<close>

lemma GetInputTensor_short_chunk:
  assumes "ictx name = map Chunk pre @ Chunk c # rest"
    and "whole_chunks pre" and "length c < 4"
    and "delivered pre \<le> expected"
  shows "GetInputTensor ictx name expected input = None"
  using assms loop_short [of pre c 0 expected rest input]
  by (simp add: GetInputTensor_eq)

text \<open>
  C3 says that \<open>GetInputTensor\<close> returns an error in three cases and success with the
  concatenated chunks in every other. Here eight bytes are expected and the source
  delivers them in chunks of three and five bytes and ends: none of the three cases, yet
  the call has no defined result, because line 210 reads four bytes of the chunk of
  three. The same bytes in one chunk assemble.
\<close>

theorem GetInputTensor_short_chunk_undefined:
  "chunked_source [] [] [[7, 0, 0], [0, 1, 0, 0, 0]] ''INPUT'' =
     map Chunk [[7, 0, 0], [0, 1, 0, 0, 0]] \<and>
   delivered [[7, 0, 0], [0, 1, 0, 0, 0 :: byte]] = 8 \<and>
   GetInputTensor (chunked_source [] [] [[7, 0, 0], [0, 1, 0, 0, 0]]) ''INPUT'' 8 [] = None \<and>
   assembly (request 0 1 [7, 1]) ''INPUT'' 8 = Some (Success, [7, 0, 0, 0, 1, 0, 0, 0])"
  by (simp add: chunked_source_def GetInputTensor_def read_int32_def assembly_def request_def
      tensor_bytes_def int32_bytes_def)

text \<open>
  C7 says that the overflowing chunk makes the assembly fail on the call that delivers
  it. Here four bytes are expected, the source delivers four and then one more: the
  second chunk overflows, and line 210, which comes before the size test, reads four
  bytes of it; the call has no defined result. With an overflowing chunk of four bytes
  the call returns \<open>kInputSize\<close> and the vector holds the first chunk.
\<close>

theorem GetInputTensor_short_overflow_undefined:
  "delivered [[1, 2, 3, 4 :: byte]] \<le> 4 \<and>
   4 < delivered [[1, 2, 3, 4 :: byte]] + length [5 :: byte] \<and>
   GetInputTensor (chunked_source [] [] [[1, 2, 3, 4], [5]]) ''INPUT'' 4 [] = None \<and>
   map_option (\<lambda>(err, buffer, ictx). (err, buffer))
     (GetInputTensor (chunked_source [] [] [[1, 2, 3, 4], [5, 6, 7, 8]]) ''INPUT'' 4 []) =
     Some (kInputSize, [1, 2, 3, 4])"
  by (simp add: chunked_source_def GetInputTensor_def read_int32_def)

subsection \<open>Sources that keep to the contract, and sources that do not\<close>

text \<open>
  Against a source that gives finitely many replies before its null replies, the loop
  ends within one call more than there are replies, as \<open>GetInputTensor_loop\<close> does.
  Against any source at all it ends within \<open>expected div 4 + 2\<close> calls: a chunk that
  does not end it adds four bytes or more to the total.
\<close>

lemma replies_of_Cons: "replies_of (r # script) (Suc n) = replies_of script n"
  by (simp add: replies_of_def)

lemma calls_shift:
  "GetInputTensor_calls fuel (replies_of (r # script)) (Suc n) expected tot input =
   GetInputTensor_calls fuel (replies_of script) n expected tot input"
proof (induction fuel arbitrary: n tot input)
  case 0
  then show ?case by simp
next
  case (Suc fuel)
  show ?case
    by (cases "replies_of script n")
      (simp_all add: replies_of_Cons Suc.IH Let_def split: option.splits)
qed

lemma calls_finite_source:
  "length script < fuel \<Longrightarrow>
   GetInputTensor_calls fuel (replies_of script) 0 expected tot input =
   (case GetInputTensor_loop script expected tot input of
      None \<Rightarrow> Undefined
    | Some (err, buffer, rest) \<Rightarrow> Returned err buffer)"
proof (induction script expected tot input arbitrary: fuel rule: GetInputTensor_loop.induct)
  case (1 expected tot input)
  then obtain f where "fuel = Suc f" by (cases fuel) auto
  then show ?case by (simp add: replies_of_def)
next
  case (2 rest expected tot input)
  then obtain f where "fuel = Suc f" by (cases fuel) auto
  then show ?case by (simp add: replies_of_def)
next
  case (3 content rest expected tot input)
  from "3.prems" obtain f where f: "fuel = Suc f" "length rest < f" by (cases fuel) auto
  have r0: "replies_of (Chunk content # rest) 0 = ReplyChunk content"
    by (simp add: replies_of_def)
  show ?case
  proof (cases "read_int32 content 0")
    case None
    with f r0 show ?thesis by simp
  next
    case (Some printed)
    show ?thesis
    proof (cases "tot + length content > expected")
      case True
      with f r0 Some show ?thesis by simp
    next
      case False
      with Some "3.IH" [OF Some refl _ f(2)] f r0 show ?thesis
        by (simp add: calls_shift Let_def)
    qed
  qed
qed

lemma calls_return:
  "tot \<le> expected \<Longrightarrow> (expected - tot) div 4 + 1 < fuel \<Longrightarrow>
   GetInputTensor_calls fuel source n expected tot input \<noteq> OutOfFuel"
proof (induction fuel arbitrary: n tot input)
  case 0
  then show ?case by simp
next
  case (Suc fuel)
  show ?case
  proof (cases "source n")
    case ReplyFailed
    then show ?thesis by simp
  next
    case ReplyNull
    then show ?thesis by simp
  next
    case (ReplyChunk content)
    show ?thesis
    proof (cases "read_int32 content 0")
      case None
      with ReplyChunk show ?thesis by simp
    next
      case (Some printed)
      with read_int32_chunk [of content] have len: "4 \<le> length content" by simp
      show ?thesis
      proof (cases "tot + length content > expected")
        case True
        with ReplyChunk Some show ?thesis by simp
      next
        case False
        with len Suc.prems have "tot + length content \<le> expected"
          "(expected - (tot + length content)) div 4 + 1 < fuel"
          by simp_all
        from Suc.IH [OF this] ReplyChunk Some False show ?thesis
          by (simp add: Let_def)
      qed
    qed
  qed
qed

section \<open>Properties of the loop over the payloads\<close>

text \<open>
  The loop body reads and writes the accumulator of its own slot only: it is the body
  run on a store with that one slot, written back.
\<close>

lemma sequence_step_slot:
  "pidx < length acc \<Longrightarrow>
   sequence_step mbs pidx acc p cnt sb rb ib =
   map_option (\<lambda>(acc1, p'). (acc[pidx := acc1 ! 0], p'))
     (sequence_step mbs 0 [acc ! pidx] p cnt sb rb ib)"
  by (simp add: sequence_step_def split: option.splits)

lemma Execute_payload_slot:
  "pidx < length acc \<Longrightarrow>
   Execute_payload mbs pidx acc p =
   map_option (\<lambda>(v, p'). (acc[pidx := v], p')) (Execute_slot mbs (acc ! pidx) p)"
  by (simp add: Execute_slot_def Execute_payload_def sequence_step_slot [of pidx acc]
      option.map_comp comp_def split_def split: option.splits prod.splits)

text \<open>
  When the loop returns, every payload got what its own slot and its own content give,
  and the slots outside the batch are as before.
\<close>

lemma Execute_loop_SomeD:
  "k + length ps \<le> length acc \<Longrightarrow> Execute_loop mbs k ps acc = Some (acc', ps') \<Longrightarrow>
   length ps' = length ps \<and> length acc' = length acc \<and>
   (\<forall>i<length ps. Execute_slot mbs (acc ! (k + i)) (ps ! i) = Some (acc' ! (k + i), ps' ! i)) \<and>
   (\<forall>j<length acc. j < k \<or> k + length ps \<le> j \<longrightarrow> acc' ! j = acc ! j)"
proof (induction ps arbitrary: k acc acc' ps')
  case Nil
  then show ?case by simp
next
  case (Cons p ps)
  from Cons.prems(1) have k: "k < length acc" by simp
  from Cons.prems(2) obtain v p1 acc2 ps2 where
    slot: "Execute_slot mbs (acc ! k) p = Some (v, p1)" and
    rest: "Execute_loop mbs (Suc k) ps (acc[k := v]) = Some (acc2, ps2)" and
    res: "acc' = acc2" "ps' = p1 # ps2"
    by (auto simp: Execute_payload_slot [OF k] split: option.splits prod.splits)
  from Cons.prems(1) have "Suc k + length ps \<le> length (acc[k := v])" by simp
  from Cons.IH [OF this rest] have
    ih: "length ps2 = length ps" "length acc2 = length acc"
      "\<And>i. i < length ps \<Longrightarrow>
         Execute_slot mbs (acc[k := v] ! (Suc k + i)) (ps ! i) = Some (acc2 ! (Suc k + i), ps2 ! i)"
      "\<And>j. j < length acc \<Longrightarrow> j < Suc k \<or> Suc k + length ps \<le> j \<Longrightarrow> acc2 ! j = acc[k := v] ! j"
    by auto
  have "Execute_slot mbs (acc ! (k + i)) ((p # ps) ! i) = Some (acc' ! (k + i), ps' ! i)"
    if "i < length (p # ps)" for i
  proof (cases i)
    case 0
    with slot res ih(4) [of k] k show ?thesis by simp
  next
    case (Suc n)
    with that ih(3) [of n] res show ?thesis by simp
  qed
  moreover have "acc' ! j = acc ! j" if "j < length acc" "j < k \<or> k + length (p # ps) \<le> j" for j
    using that ih(4) [of j] res by auto
  ultimately show ?case using ih(1,2) res by simp
qed

text \<open>The loop returns when the body is defined on every payload.\<close>

lemma Execute_loop_Some:
  "k + length ps \<le> length acc \<Longrightarrow>
   \<forall>i<length ps. Execute_slot mbs (acc ! (k + i)) (ps ! i) \<noteq> None \<Longrightarrow>
   \<exists>acc' ps'. Execute_loop mbs k ps acc = Some (acc', ps')"
proof (induction ps arbitrary: k acc)
  case Nil
  then show ?case by simp
next
  case (Cons p ps)
  from Cons.prems(1) have k: "k < length acc" by simp
  from Cons.prems(2) [rule_format, of 0] obtain v p1 where
    slot: "Execute_slot mbs (acc ! k) p = Some (v, p1)" by auto
  have "Suc k + length ps \<le> length (acc[k := v])" using Cons.prems(1) by simp
  moreover have "\<forall>i<length ps. Execute_slot mbs (acc[k := v] ! (Suc k + i)) (ps ! i) \<noteq> None"
    using Cons.prems(2) by (auto dest: spec [of _ "Suc i" for i])
  ultimately obtain acc2 ps2 where "Execute_loop mbs (Suc k) ps (acc[k := v]) = Some (acc2, ps2)"
    using Cons.IH by blast
  with slot show ?case by (simp add: Execute_payload_slot [OF k])
qed

text \<open>A successful assembly grows the vector by what was still expected and uses the source up.\<close>

lemma loop_Success:
  "GetInputTensor_loop src e t inp = Some (Success, b, r) \<Longrightarrow> t \<le> e \<Longrightarrow>
   length b = length inp + (e - t) \<and> r = []"
proof (induction src e t inp rule: GetInputTensor_loop.induct)
  case (1 expected tot input)
  then show ?case by (simp split: if_splits)
next
  case (2 rest expected tot input)
  then show ?case by simp
next
  case (3 content rest expected tot input)
  then show ?case by (auto simp: Let_def split: if_splits option.splits)
qed

lemma assembly_eq:
  "assembly p name expected =
     map_option (\<lambda>(err, buffer, rest). (err, buffer))
       (GetInputTensor_loop (input_context p name) expected 0 [])"
  by (simp add: assembly_def GetInputTensor_eq option.map_comp comp_def split_def)

lemma assembly_Success:
  assumes "assembly p name expected = Some (Success, buffer)"
  shows "GetInputTensor_loop (input_context p name) expected 0 [] = Some (Success, buffer, [])"
    and "length buffer = expected"
proof -
  from assms obtain rest where
    l: "GetInputTensor_loop (input_context p name) expected 0 [] = Some (Success, buffer, rest)"
    by (auto simp: assembly_eq)
  from loop_Success [OF l] have "length buffer = expected" "rest = []" by simp_all
  with l show "GetInputTensor_loop (input_context p name) expected 0 [] = Some (Success, buffer, [])"
    and "length buffer = expected" by simp_all
qed

text \<open>The exits before the update: the accumulators stay, an error code is set, nothing is output.\<close>

lemma Execute_payload_fails:
  assumes "fails_before_update p"
  shows "\<exists>p'. Execute_payload mbs pidx acc p = Some (acc, p') \<and> error_code p' \<noteq> Success \<and>
           output_log p' = output_log p"
  using assms
  by (auto simp: fails_before_update_def Execute_payload_def assembly_fails_def assembly_eq
      GetInputTensor_eq split: if_splits option.splits)

text \<open>When the three tensors assemble, the body is the update step on the assembled buffers.\<close>

lemma Execute_payload_assembles:
  assumes "assembles p cnt sb rb ib"
  shows "Execute_payload mbs pidx acc p =
           sequence_step mbs pidx acc
             (p\<lparr>input_context := (input_context p)(''START'' := [], ''READY'' := [], ''INPUT'' := [])\<rparr>)
             cnt sb rb ib"
proof -
  from assms have b: "batch_size p = 1" and c: "input_element_cnt (inputs p) = Some cnt"
    and s: "assembly p ''START'' batch1_byte_size = Some (Success, sb)"
    and r: "assembly p ''READY'' batch1_byte_size = Some (Success, rb)"
    and i: "assembly p ''INPUT'' (input_byte_size cnt) = Some (Success, ib)"
    by (simp_all add: assembles_def)
  show ?thesis
    by (simp add: Execute_payload_def GetInputTensor_eq b c
        assembly_Success(1) [OF s] assembly_Success(1) [OF r] assembly_Success(1) [OF i])
qed

lemma assembles_lengths:
  assumes "assembles p cnt sb rb ib"
  shows "length sb = 4" "length rb = 4" "length ib = input_byte_size cnt"
  using assms assembly_Success(2) [of p _ _ sb] assembly_Success(2) [of p _ _ rb]
    assembly_Success(2) [of p _ _ ib]
  by (auto simp: assembles_def batch1_byte_size_def)

lemma Execute_slot_None_iff:
  "pidx < length acc \<Longrightarrow> Execute_slot mbs (acc ! pidx) p = None \<longleftrightarrow> Execute_payload mbs pidx acc p = None"
  by (simp add: Execute_payload_slot)

text \<open>Undefined behaviour on one payload is undefined behaviour of the loop.\<close>

lemma Execute_loop_None:
  assumes "k + length ps \<le> length acc" and "i < length ps"
    and "Execute_payload mbs (k + i) acc (ps ! i) = None"
  shows "Execute_loop mbs k ps acc = None"
proof (cases "Execute_loop mbs k ps acc")
  case None
  then show ?thesis .
next
  case (Some res)
  obtain acc' ps' where "res = (acc', ps')" by (cases res)
  with Some Execute_loop_SomeD [OF assms(1), of mbs acc' ps'] assms(2)
  have "Execute_slot mbs (acc ! (k + i)) (ps ! i) \<noteq> None" by auto
  with assms show ?thesis by (simp add: Execute_payload_slot)
qed

lemma Execute_payload_SomeD:
  assumes "pidx < length acc" and "Execute_payload mbs pidx acc p = Some (acc', p')"
  shows "Execute_slot mbs (acc ! pidx) p = Some (acc' ! pidx, p')"
proof -
  from assms obtain v where "Execute_slot mbs (acc ! pidx) p = Some (v, p')" "acc' = acc[pidx := v]"
    by (auto simp: Execute_payload_slot)
  with assms(1) show ?thesis by simp
qed

lemma Context_ok_new: "Context_ok (Context_new mbs delay)"
  by (simp add: Context_ok_def Context_new_def)

lemma Context_ok_Execute:
  assumes "Context_ok ctx" and "Execute ctx ps = Some r"
  shows "Context_ok (context_out r)"
proof (cases "length (accumulator ctx) < length ps")
  case True
  with assms show ?thesis by (auto simp: Execute_def)
next
  case False
  with assms(2) obtain acc' ps' where
    "Execute_loop (max_batch_size ctx) 0 ps (accumulator ctx) = Some (acc', ps')"
    "context_out r = ctx\<lparr>accumulator := acc'\<rparr>"
    by (auto simp: Execute_def split: option.splits)
  with Execute_loop_SomeD [of 0 ps "accumulator ctx" "max_batch_size ctx" acc' ps'] False assms(1)
  show ?thesis by (simp add: Context_ok_def)
qed

text \<open>
  C5. A payload that takes one of the exits before the update (its batch size is not 1,
  or START, READY or INPUT does not assemble) leaves the accumulator of its slot as it
  was before the call, carries an error code afterwards and has nothing output. The
  call returns provided no other payload of the batch runs into undefined behaviour.
\<close>

theorem Execute_failed_slot_unchanged:
  assumes "length ps \<le> length (accumulator ctx)"
    and "i < length ps"
    and "fails_before_update (ps ! i)"
    and "\<forall>k<length ps. k \<noteq> i \<longrightarrow>
           Execute_payload (max_batch_size ctx) k (accumulator ctx) (ps ! k) \<noteq> None"
  shows "\<exists>r. Execute ctx ps = Some r \<and>
           accumulator (context_out r) ! i = accumulator ctx ! i \<and>
           error_code (payloads_out r ! i) \<noteq> Success \<and>
           output_log (payloads_out r ! i) = output_log (ps ! i)"
proof -
  let ?mbs = "max_batch_size ctx" and ?acc = "accumulator ctx"
  from assms(1,2) have i: "i < length ?acc" by simp
  from Execute_payload_fails [OF assms(3), of ?mbs i ?acc] obtain p' where
    p': "Execute_payload ?mbs i ?acc (ps ! i) = Some (?acc, p')" "error_code p' \<noteq> Success"
      "output_log p' = output_log (ps ! i)" by blast
  with i have slot: "Execute_slot ?mbs (?acc ! i) (ps ! i) = Some (?acc ! i, p')"
    by (simp add: Execute_payload_SomeD)
  have "Execute_slot ?mbs (?acc ! (0 + k)) (ps ! k) \<noteq> None" if "k < length ps" for k
  proof (cases "k = i")
    case True
    with slot show ?thesis by simp
  next
    case False
    with that assms(1,4) show ?thesis by (simp add: Execute_payload_slot)
  qed
  with Execute_loop_Some [of 0 ps ?acc ?mbs] assms(1) obtain acc' ps' where
    loop: "Execute_loop ?mbs 0 ps ?acc = Some (acc', ps')" by auto
  from Execute_loop_SomeD [of 0 ps ?acc ?mbs acc' ps'] loop assms(1,2)
  have "Execute_slot ?mbs (?acc ! i) (ps ! i) = Some (acc' ! i, ps' ! i)" by simp
  with slot have "acc' ! i = ?acc ! i" "ps' ! i = p'" by simp_all
  with loop p' assms(1) show ?thesis by (simp add: Execute_def)
qed

text \<open>
  Slot 1 holds 7 and receives the payload that declares five elements and delivers four:
  \<open>kInputSize\<close>, and the slot still holds 7 after the call.
\<close>

theorem Execute_failed_slot_unchanged_witness:
  "fails_before_update short_request \<and>
   map_option fst (assembly short_request ''INPUT'' 20) = Some kInputSize \<and>
   Execute_payload 4 0 [0, 7, 0, 0] (request 1 1 [2, 3, 4]) \<noteq> None \<and>
   (\<exists>r. Execute \<lparr>max_batch_size = 4, execute_delay_ms = 0, accumulator = [0, 7, 0, 0]\<rparr>
           [request 1 1 [2, 3, 4], short_request] = Some r \<and>
        accumulator (context_out r) ! 1 = 7 \<and>
        error_code (payloads_out r ! 1) \<noteq> Success \<and>
        output_log (payloads_out r ! 1) = [])"
proof -
  let ?ctx = "\<lparr>max_batch_size = 4, execute_delay_ms = 0, accumulator = [0, 7, 0, 0]\<rparr>"
  let ?ps = "[request 1 1 [2, 3, 4], short_request]"
  have f: "fails_before_update short_request" by code_simp
  have e: "map_option fst (assembly short_request ''INPUT'' 20) = Some kInputSize" by code_simp
  have d: "Execute_payload 4 0 [0, 7, 0, 0] (request 1 1 [2, 3, 4]) \<noteq> None" by code_simp
  have o: "output_log short_request = []" by (simp add: short_request_def request_def)
  have "\<forall>k<length ?ps. k \<noteq> 1 \<longrightarrow>
      Execute_payload (max_batch_size ?ctx) k (accumulator ?ctx) (?ps ! k) \<noteq> None"
    using d by (simp add: less_Suc_eq)
  with Execute_failed_slot_unchanged [of ?ps ?ctx 1] f o
  have "\<exists>r. Execute ?ctx ?ps = Some r \<and> accumulator (context_out r) ! 1 = 7 \<and>
        error_code (payloads_out r ! 1) \<noteq> Success \<and> output_log (payloads_out r ! 1) = []"
    by simp
  with f e d show ?thesis by blast
qed

text \<open>A payload alone on a store of one slot gets what it gets in its slot of the batch.\<close>

lemma Execute_slot_alone:
  "Execute_slot mbs a p = Some (v, p') \<longleftrightarrow> Execute_payload mbs 0 [a] p = Some ([v], p')"
  using Execute_payload_slot [of 0 "[a]" mbs p] by (cases "Execute_slot mbs a p") auto

text \<open>
  C4. Let payload \<open>j\<close> of a batch record a failure (its processing ends with
  \<open>kTimesteps\<close>, \<open>kInputContents\<close>, \<open>kInputSize\<close> or \<open>kOutputBuffer\<close>), and let the
  processing of every other payload be defined. Then the call returns \<open>Success\<close>;
  payload \<open>j\<close> carries its error code afterwards; every payload of the batch, the
  failing one and the others, and the accumulator of its slot end exactly as when the
  payload is processed alone, on a store that holds its own accumulator only; the slots
  behind the batch are as before; and in any run of the batch with another payload
  \<open>q\<close> in place of \<open>j\<close> the other payloads and their accumulators end the same.
\<close>

theorem Execute_failure_isolated:
  assumes "length ps \<le> length (accumulator ctx)"
    and "j < length ps"
    and "records_failure (max_batch_size ctx) j (accumulator ctx) (ps ! j)"
    and "\<forall>i<length ps. i \<noteq> j \<longrightarrow>
           Execute_payload (max_batch_size ctx) i (accumulator ctx) (ps ! i) \<noteq> None"
  shows "\<exists>r. Execute ctx ps = Some r \<and> ret r = Success \<and>
           length (payloads_out r) = length ps \<and>
           length (accumulator (context_out r)) = length (accumulator ctx) \<and>
           error_code (payloads_out r ! j) \<in> {kTimesteps, kInputContents, kInputSize, kOutputBuffer} \<and>
           (\<forall>i<length ps.
              Execute_payload (max_batch_size ctx) 0 [accumulator ctx ! i] (ps ! i) =
                Some ([accumulator (context_out r) ! i], payloads_out r ! i)) \<and>
           (\<forall>i<length (accumulator ctx). length ps \<le> i \<longrightarrow>
              accumulator (context_out r) ! i = accumulator ctx ! i) \<and>
           (\<forall>q r'. Execute ctx (ps[j := q]) = Some r' \<longrightarrow>
              (\<forall>i<length ps. i \<noteq> j \<longrightarrow>
                 payloads_out r' ! i = payloads_out r ! i \<and>
                 accumulator (context_out r') ! i = accumulator (context_out r) ! i))"
proof -
  let ?mbs = "max_batch_size ctx" and ?acc = "accumulator ctx"
  from assms(1,2) have j: "j < length ?acc" by simp
  from assms(3) obtain accj pj where
    pj: "Execute_payload ?mbs j ?acc (ps ! j) = Some (accj, pj)"
      "error_code pj \<in> {kTimesteps, kInputContents, kInputSize, kOutputBuffer}"
    by (auto simp: records_failure_def split: option.splits)
  from Execute_payload_SomeD [OF j pj(1)]
  have slotj: "Execute_slot ?mbs (?acc ! j) (ps ! j) = Some (accj ! j, pj)" .
  have "Execute_slot ?mbs (?acc ! (0 + i)) (ps ! i) \<noteq> None" if "i < length ps" for i
  proof (cases "i = j")
    case True
    with slotj show ?thesis by simp
  next
    case False
    with that assms(1,4) show ?thesis by (simp add: Execute_payload_slot)
  qed
  with Execute_loop_Some [of 0 ps ?acc ?mbs] assms(1) obtain acc2 ps2 where
    loop2: "Execute_loop ?mbs 0 ps ?acc = Some (acc2, ps2)" by auto
  from Execute_loop_SomeD [of 0 ps ?acc ?mbs acc2 ps2] loop2 assms(1)
  have len2: "length ps2 = length ps" "length acc2 = length ?acc"
    and slots2: "\<And>i. i < length ps \<Longrightarrow>
      Execute_slot ?mbs (?acc ! i) (ps ! i) = Some (acc2 ! i, ps2 ! i)"
    and keep2: "\<And>i. i < length ?acc \<Longrightarrow> length ps \<le> i \<Longrightarrow> acc2 ! i = ?acc ! i"
    by simp_all
  from slots2 [OF assms(2)] slotj have "ps2 ! j = pj" by simp
  with pj(2) have errj:
    "error_code (ps2 ! j) \<in> {kTimesteps, kInputContents, kInputSize, kOutputBuffer}" by simp
  have alone: "Execute_payload ?mbs 0 [?acc ! i] (ps ! i) = Some ([acc2 ! i], ps2 ! i)"
    if "i < length ps" for i
    using slots2 [OF that] by (simp add: Execute_slot_alone)
  have other: "payloads_out r' ! i = ps2 ! i \<and> accumulator (context_out r') ! i = acc2 ! i"
    if run: "Execute ctx (ps[j := q]) = Some r'" and i: "i < length ps" "i \<noteq> j" for q r' i
  proof -
    from assms(1) run obtain acc1 ps1 where
      loop1: "Execute_loop ?mbs 0 (ps[j := q]) ?acc = Some (acc1, ps1)" and
      r': "payloads_out r' = ps1" "accumulator (context_out r') = acc1"
      by (auto simp: Execute_def split: option.splits)
    from Execute_loop_SomeD [of 0 "ps[j := q]" ?acc ?mbs acc1 ps1] loop1 assms(1)
    have "\<forall>k<length ps. Execute_slot ?mbs (?acc ! k) (ps[j := q] ! k) = Some (acc1 ! k, ps1 ! k)"
      by simp
    with i have "Execute_slot ?mbs (?acc ! i) (ps ! i) = Some (acc1 ! i, ps1 ! i)"
      by (auto dest: spec [of _ i])
    with slots2 [OF i(1)] r' show ?thesis by simp
  qed
  let ?r = "\<lparr>ret = Success, context_out = ctx\<lparr>accumulator := acc2\<rparr>, payloads_out = ps2,
    slept_ms = (if execute_delay_ms ctx > 0 then execute_delay_ms ctx else 0)\<rparr>"
  from loop2 assms(1) have "Execute ctx ps = Some ?r" by (simp add: Execute_def)
  moreover have "ret ?r = Success" "length (payloads_out ?r) = length ps"
    "length (accumulator (context_out ?r)) = length ?acc"
    using len2 by simp_all
  moreover from errj have
    "error_code (payloads_out ?r ! j) \<in> {kTimesteps, kInputContents, kInputSize, kOutputBuffer}"
    by simp
  moreover from alone have "\<forall>i<length ps.
      Execute_payload ?mbs 0 [?acc ! i] (ps ! i) =
        Some ([accumulator (context_out ?r) ! i], payloads_out ?r ! i)" by simp
  moreover from keep2 have "\<forall>i<length ?acc. length ps \<le> i \<longrightarrow>
      accumulator (context_out ?r) ! i = ?acc ! i" by simp
  moreover from other have "\<forall>q r'. Execute ctx (ps[j := q]) = Some r' \<longrightarrow>
      (\<forall>i<length ps. i \<noteq> j \<longrightarrow>
         payloads_out r' ! i = payloads_out ?r ! i \<and>
         accumulator (context_out r') ! i = accumulator (context_out ?r) ! i)" by simp
  ultimately show ?thesis by blast
qed

text \<open>
  The payload that declares five elements and delivers four in slot 0, a payload that
  adds 2, 3 and 4 in slot 1 holding 7: the call returns \<open>Success\<close>, the first payload
  carries \<open>kInputSize\<close> and slot 0 its 0, the second payload has 16 output and slot 1
  holds 16, slot 2 is as before.
\<close>

theorem Execute_failure_isolated_witness:
  "records_failure 4 0 [0, 7, 0, 0] short_request \<and>
   Execute_payload 4 1 [0, 7, 0, 0] (request 0 1 [2, 3, 4]) \<noteq> None \<and>
   (\<exists>r. Execute \<lparr>max_batch_size = 4, execute_delay_ms = 0, accumulator = [0, 7, 0, 0]\<rparr>
           [short_request, request 0 1 [2, 3, 4]] = Some r \<and>
        ret r = Success \<and>
        length (payloads_out r) = 2 \<and>
        error_code (payloads_out r ! 0) = kInputSize \<and>
        output_log (payloads_out r ! 0) = [] \<and>
        accumulator (context_out r) ! 0 = 0 \<and>
        accumulator (context_out r) ! 1 = 16 \<and>
        error_code (payloads_out r ! 1) = Success \<and>
        output_log (payloads_out r ! 1) = [GetOutput ''OUTPUT'' [1, 3] 4, Memcpy 16] \<and>
        accumulator (context_out r) ! 2 = 0)"
proof -
  let ?ctx = "\<lparr>max_batch_size = 4, execute_delay_ms = 0, accumulator = [0, 7, 0, 0]\<rparr>"
  let ?ps = "[short_request, request 0 1 [2, 3, 4]]"
  let ?view = "map_option (\<lambda>(acc, p). (acc, error_code p, output_log p))"
  have f: "records_failure 4 0 [0, 7, 0, 0] short_request" by code_simp
  have d: "Execute_payload 4 1 [0, 7, 0, 0] (request 0 1 [2, 3, 4]) \<noteq> None" by code_simp
  have v0: "?view (Execute_payload 4 0 [0] short_request) = Some ([0], kInputSize, [])"
    by code_simp
  have v1: "?view (Execute_payload 4 0 [7] (request 0 1 [2, 3, 4])) =
      Some ([16], Success, [GetOutput ''OUTPUT'' [1, 3] 4, Memcpy 16])"
    by code_simp
  have "\<forall>i<length ?ps. i \<noteq> 0 \<longrightarrow>
      Execute_payload (max_batch_size ?ctx) i (accumulator ?ctx) (?ps ! i) \<noteq> None"
    using d by (simp add: less_Suc_eq)
  with Execute_failure_isolated [of ?ps ?ctx 0] f
  obtain r where r: "Execute ?ctx ?ps = Some r" "ret r = Success" "length (payloads_out r) = 2"
    "\<And>i. i < 2 \<Longrightarrow> Execute_payload 4 0 [[0, 7, 0, 0] ! i] (?ps ! i) =
        Some ([accumulator (context_out r) ! i], payloads_out r ! i)"
    "\<And>i. i < 4 \<Longrightarrow> 2 \<le> i \<Longrightarrow> accumulator (context_out r) ! i = [0, 7, 0, 0] ! i"
    by auto
  from r(4) [of 0] v0 have "accumulator (context_out r) ! 0 = 0"
    "error_code (payloads_out r ! 0) = kInputSize" "output_log (payloads_out r ! 0) = []"
    by simp_all
  moreover from r(4) [of 1] v1 have "accumulator (context_out r) ! 1 = 16"
    "error_code (payloads_out r ! 1) = Success"
    "output_log (payloads_out r ! 1) = [GetOutput ''OUTPUT'' [1, 3] 4, Memcpy 16]"
    by simp_all
  moreover from r(5) [of 2] have "accumulator (context_out r) ! 2 = 0" by simp
  ultimately show ?thesis using f d r(1-3) by blast
qed

text \<open>
  C6, as the code has it. The bound is the number of accumulators,
  \<open>max(1, max_batch_size)\<close>: a call with more payloads than that returns
  \<open>kBatchTooBig\<close>, and the context, every payload (its inputs unread, its output log
  and error code untouched) and the clock are as before the call.
\<close>

theorem Execute_batch_too_big:
  assumes "Context_ok ctx"
    and "int (length ps) > max 1 (max_batch_size ctx)"
  shows "Execute ctx ps =
           Some \<lparr>ret = kBatchTooBig, context_out = ctx, payloads_out = ps, slept_ms = 0\<rparr>"
proof -
  from assms have "length (accumulator ctx) < length ps"
    by (simp add: Context_ok_def) linarith
  then show ?thesis by (simp add: Execute_def)
qed

text \<open>Two payloads for a model of max batch size 1 and a delay of 3 ms.\<close>

theorem Execute_batch_too_big_witness:
  "Context_ok (Context_new 1 3) \<and>
   int (length [request 1 1 [5], request 1 1 [6]]) > max 1 (max_batch_size (Context_new 1 3)) \<and>
   Execute (Context_new 1 3) [request 1 1 [5], request 1 1 [6]] =
     Some \<lparr>ret = kBatchTooBig, context_out = Context_new 1 3,
           payloads_out = [request 1 1 [5], request 1 1 [6]], slept_ms = 0\<rparr>"
proof -
  have a: "Context_ok (Context_new 1 3)" by (rule Context_ok_new)
  have b: "int (length [request 1 1 [5], request 1 1 [6]]) > max 1 (max_batch_size (Context_new 1 3))"
    by (simp add: Context_new_def)
  from Execute_batch_too_big [OF a b] a b show ?thesis by blast
qed

text \<open>
  C6 as stated fails for a model that does not batch: max batch size 0, one payload.
  The payload count exceeds the max batch size, and the call processes the payload.
\<close>

theorem Execute_batch_too_big_counterexample:
  "int (length [request 1 1 [5]]) > max_batch_size (Context_new 0 0) \<and>
   (case Execute (Context_new 0 0) [request 1 1 [5]] of
      None \<Rightarrow> False
    | Some r \<Rightarrow> ret r = Success \<and> accumulator (context_out r) = [5] \<and>
        output_log (payloads_out r ! 0) = [GetOutput ''OUTPUT'' [1] 4, Memcpy 5])"
  by code_simp

section \<open>The update step and the output\<close>

lemma sequence_step_ready:
  assumes "read_int32 rb 0 = Some ready" and "ready \<noteq> 0"
    and "read_int32 sb 0 = Some start" and "pidx < length acc"
  shows "sequence_step mbs pidx acc p cnt sb rb ib =
           map_option (\<lambda>output. (acc[pidx := output], write_output mbs cnt output p))
             (update_accumulator start (acc ! pidx) cnt ib)"
  using assms by (simp add: sequence_step_def split: option.splits)

lemma sequence_step_not_ready:
  assumes "read_int32 rb 0 = Some 0"
  shows "sequence_step mbs pidx acc p cnt sb rb ib = Some (acc, p)"
  using assms by (simp add: sequence_step_def)



text \<open>
  C10. The element count of INPUT is 0 when no input of the payload is named INPUT.
  When the count is 0 and the tensors assemble, the INPUT buffer is empty; with
  \<open>ready[0] != 0\<close> and \<open>start[0] != 0\<close> the step reads \<open>input[0]\<close> outside of it,
  whatever the accumulator holds: the update has no defined value (it is not the empty
  sum 0), and neither has the call of \<open>Execute\<close>.
\<close>

theorem empty_INPUT_out_of_bounds:
  assumes "length ps \<le> length (accumulator ctx)" and "i < length ps"
    and "assembles (ps ! i) 0 sb rb ib"
    and "read_int32 rb 0 = Some ready" and "ready \<noteq> 0"
    and "read_int32 sb 0 = Some start" and "start \<noteq> 0"
  shows "(''INPUT'' \<notin> fst ` set (inputs q) \<longrightarrow> input_element_cnt (inputs q) = Some 0) \<and>
         ib = [] \<and> read_int32 ib 0 = None \<and>
         update_accumulator start a 0 ib = None \<and>
         Execute_payload (max_batch_size ctx) i (accumulator ctx) (ps ! i) = None \<and>
         Execute ctx ps = None"
proof -
  have cnt: "''INPUT'' \<notin> fst ` set xs \<Longrightarrow> input_element_cnt xs = Some 0" for xs
    by (induction xs rule: input_element_cnt.induct) auto
  from assembles_lengths(3) [OF assms(3)] have ib: "ib = []"
    by (simp add: input_byte_size_def)
  then have rd: "read_int32 ib 0 = None" by (simp add: read_int32_def)
  with assms(7) have up: "update_accumulator start a 0 ib = None" for a
    by (simp add: update_accumulator_def)
  from assms(1,2) have "i < length (accumulator ctx)" by simp
  with assms(3-6) up have body:
    "Execute_payload (max_batch_size ctx) i (accumulator ctx) (ps ! i) = None"
    by (simp add: Execute_payload_assembles sequence_step_ready)
  with Execute_loop_None [of 0 ps "accumulator ctx" i "max_batch_size ctx"] assms(1,2)
  have "Execute ctx ps = None" by (simp add: Execute_def)
  with cnt [of "inputs q"] ib rd up [of a] body show ?thesis by simp
qed

text \<open>
  A start request with an empty INPUT in slot 1, behind a payload that is fine.
\<close>

theorem empty_INPUT_out_of_bounds_witness:
  "assembles (request 1 1 []) 0 [1, 0, 0, 0] [1, 0, 0, 0] [] \<and>
   read_int32 [1, 0, 0, 0] 0 = Some 1 \<and>
   input_element_cnt (inputs ((request 1 1 [7])\<lparr>inputs := []\<rparr>)) = Some 0 \<and>
   read_int32 [] 0 = None \<and>
   Execute_payload 2 1 [5, 6] (request 1 1 []) = None \<and>
   Execute \<lparr>max_batch_size = 2, execute_delay_ms = 0, accumulator = [5, 6]\<rparr>
     [request 0 1 [3], request 1 1 []] = None"
proof -
  let ?ctx = "\<lparr>max_batch_size = 2, execute_delay_ms = 0, accumulator = [5, 6]\<rparr>"
  let ?ps = "[request 0 1 [3], request 1 1 []]"
  have a: "assembles (?ps ! 1) 0 [1, 0, 0, 0] [1, 0, 0, 0] []" by code_simp
  have r: "read_int32 [1, 0, 0, 0] 0 = Some 1" by code_simp
  have one: "(1 :: int32) \<noteq> 0" by simp
  have l: "length ?ps \<le> length (accumulator ?ctx)" "1 < length ?ps" by simp_all
  have q: "''INPUT'' \<notin> fst ` set (inputs ((request 1 1 [7])\<lparr>inputs := []\<rparr>))" by simp
  from empty_INPUT_out_of_bounds [OF l a r one r one, of "(request 1 1 [7])\<lparr>inputs := []\<rparr>"] q a r
  show ?thesis by simp
qed

section \<open>Chunk boundaries\<close>

text \<open>
  C9 says that any two ways of cutting the bytes of an INPUT into chunks give the same
  assembled vector and the same accumulator. Here the eight bytes of the elements 2
  and 3 come in one chunk, and in chunks of one, six and one bytes. The first assembles
  and adds 5 to a slot holding 10; on the second line 210 reads four bytes of a chunk
  of one, and neither the assembly nor the processing of the payload has a defined
  result.
\<close>

theorem short_chunks_not_interchangeable:
  "concat [[2, 0, 0, 0, 3, 0, 0, 0 :: byte]] = concat [[2], [0, 0, 0, 3, 0, 0], [0]] \<and>
   length (concat [[2, 0, 0, 0, 3, 0, 0, 0 :: byte]]) = 2 * batch1_byte_size \<and>
   input_element_cnt (inputs (request 0 1 [0, 0])) = Some 2 \<and>
   map_option (\<lambda>(err, buffer, ictx). (err, buffer))
     (GetInputTensor ((\<lambda>name. [])(''INPUT'' := map Chunk [[2, 0, 0, 0, 3, 0, 0, 0]])) ''INPUT''
        (2 * batch1_byte_size) []) = Some (Success, [2, 0, 0, 0, 3, 0, 0, 0]) \<and>
   GetInputTensor ((\<lambda>name. [])(''INPUT'' := map Chunk [[2], [0, 0, 0, 3, 0, 0], [0]])) ''INPUT''
        (2 * batch1_byte_size) [] = None \<and>
   map_option (\<lambda>(acc', p'). (acc', error_code p', output_log p'))
     (Execute_payload 4 0 [10]
        ((request 0 1 [0, 0])\<lparr>input_context := (input_context (request 0 1 [0, 0]))
           (''INPUT'' := map Chunk [[2, 0, 0, 0, 3, 0, 0, 0]])\<rparr>)) =
     Some ([15], Success, [GetOutput ''OUTPUT'' [1, 2] 4, Memcpy 15]) \<and>
   Execute_payload 4 0 [10]
     ((request 0 1 [0, 0])\<lparr>input_context := (input_context (request 0 1 [0, 0]))
        (''INPUT'' := map Chunk [[2], [0, 0, 0, 3, 0, 0], [0]])\<rparr>) = None"
proof -
  have a: "concat [[2, 0, 0, 0, 3, 0, 0, 0 :: byte]] = concat [[2], [0, 0, 0, 3, 0, 0], [0]]"
    "length (concat [[2, 0, 0, 0, 3, 0, 0, 0 :: byte]]) = 2 * batch1_byte_size"
    "input_element_cnt (inputs (request 0 1 [0, 0])) = Some 2"
    by (simp_all add: batch1_byte_size_def request_def)
  have b: "map_option (\<lambda>(err, buffer, ictx). (err, buffer))
     (GetInputTensor ((\<lambda>name. [])(''INPUT'' := map Chunk [[2, 0, 0, 0, 3, 0, 0, 0]])) ''INPUT''
        (2 * batch1_byte_size) []) = Some (Success, [2, 0, 0, 0, 3, 0, 0, 0])"
    by (simp add: GetInputTensor_def read_int32_def batch1_byte_size_def)
  have c: "GetInputTensor ((\<lambda>name. [])(''INPUT'' := map Chunk [[2], [0, 0, 0, 3, 0, 0], [0]])) ''INPUT''
        (2 * batch1_byte_size) [] = None"
    by (simp add: GetInputTensor_def read_int32_def)
  have d: "map_option (\<lambda>(acc', p'). (acc', error_code p', output_log p'))
     (Execute_payload 4 0 [10]
        ((request 0 1 [0, 0])\<lparr>input_context := (input_context (request 0 1 [0, 0]))
           (''INPUT'' := map Chunk [[2, 0, 0, 0, 3, 0, 0, 0]])\<rparr>)) =
     Some ([15], Success, [GetOutput ''OUTPUT'' [1, 2] 4, Memcpy 15])"
    by code_simp
  have e: "map_option (\<lambda>(acc', p'). (acc', error_code p', output_log p'))
     (Execute_payload 4 0 [10]
     ((request 0 1 [0, 0])\<lparr>input_context := (input_context (request 0 1 [0, 0]))
        (''INPUT'' := map Chunk [[2], [0, 0, 0, 3, 0, 0], [0]])\<rparr>)) = None"
    by code_simp
  from a b c d e show ?thesis by simp
qed

text \<open>A count that fits: the byte size of \<open>E\<close> elements is \<open>E\<close> times the element size.\<close>

lemma input_byte_size_nat:
  assumes "E < 2 ^ 62"
  shows "input_byte_size (int E) = E * batch1_byte_size"
proof -
  from assms have "int E * 4 < 2 ^ 64" by simp
  then have "(int E * 4) mod 2 ^ 64 = int E * 4" by simp
  then show ?thesis by (simp add: input_byte_size_def batch1_byte_size_def nat_mult_distrib)
qed

lemma loop_whole:
  "whole_chunks cs \<Longrightarrow> length (concat cs) = expected \<Longrightarrow>
   GetInputTensor_loop (map Chunk cs) expected 0 input = Some (Success, input @ concat cs, [])"
  using loop_end [of cs 0 expected input] by (simp add: delivered_def)

lemma consumed_twice:
  "a \<noteq> b \<Longrightarrow> a \<noteq> c \<Longrightarrow> f(a := x, b := y, c := z, a := w) = f(b := y, c := z, a := w)"
  by (auto simp: fun_eq_iff)

text \<open>
  Chunks of four bytes or more are interchangeable. Let two chunk sequences of such
  chunks split the same bytes, \<open>E\<close> elements of four bytes. \<open>GetInputTensor\<close> succeeds
  on both with the same assembled vector, and a payload that declares \<open>E\<close> elements
  gives the same accumulators, the same error code and the same output whichever of the
  two its source delivers INPUT in.
\<close>

lemma whole_chunking_irrelevant:
  assumes "concat cs1 = concat cs2"
    and "whole_chunks cs1" and "whole_chunks cs2"
    and "length (concat cs1) = E * batch1_byte_size"
    and "E < 2 ^ 62"
    and "input_element_cnt (inputs p) = Some (int E)"
  shows "GetInputTensor (ictx(name := map Chunk cs1)) name (E * batch1_byte_size) input =
           Some (Success, input @ concat cs1, ictx(name := [])) \<and>
         GetInputTensor (ictx(name := map Chunk cs2)) name (E * batch1_byte_size) input =
           Some (Success, input @ concat cs1, ictx(name := [])) \<and>
         map_option (\<lambda>(acc', p'). (acc', error_code p', output_log p'))
           (Execute_payload mbs pidx acc
              (p\<lparr>input_context := (input_context p)(''INPUT'' := map Chunk cs1)\<rparr>)) =
         map_option (\<lambda>(acc', p'). (acc', error_code p', output_log p'))
           (Execute_payload mbs pidx acc
              (p\<lparr>input_context := (input_context p)(''INPUT'' := map Chunk cs2)\<rparr>))"
proof -
  from assms(1,4) have l: "length (concat cs1) = E * batch1_byte_size"
    "length (concat cs2) = E * batch1_byte_size" by simp_all
  have g: "GetInputTensor (ictx(name := map Chunk cs)) name (E * batch1_byte_size) input =
      Some (Success, input @ concat cs, ictx(name := []))"
    if "whole_chunks cs" "length (concat cs) = E * batch1_byte_size" for cs
    using that by (simp add: GetInputTensor_eq loop_whole)
  let ?S = "GetInputTensor_loop (input_context p ''START'') batch1_byte_size 0 []"
  let ?R = "GetInputTensor_loop (input_context p ''READY'') batch1_byte_size 0 []"
  have body: "map_option (\<lambda>(acc', p'). (acc', error_code p', output_log p'))
      (Execute_payload mbs pidx acc
        (p\<lparr>input_context := (input_context p)(''INPUT'' := map Chunk cs)\<rparr>)) =
      (if batch_size p \<noteq> 1 then Some (acc, kTimesteps, output_log p)
       else (case ?S of
               None \<Rightarrow> None
             | Some (e1, sb, r1) \<Rightarrow>
                 if e1 \<noteq> Success then Some (acc, e1, output_log p)
                 else (case ?R of
                         None \<Rightarrow> None
                       | Some (e2, rb, r2) \<Rightarrow>
                           if e2 \<noteq> Success then Some (acc, e2, output_log p)
                           else map_option (\<lambda>(acc', p'). (acc', error_code p', output_log p'))
                             (sequence_step mbs pidx acc
                                (p\<lparr>input_context := (input_context p)(
                                   ''START'' := r1, ''READY'' := r2, ''INPUT'' := [])\<rparr>)
                                (int E) sb rb (concat cs)))))"
    if "whole_chunks cs" "length (concat cs) = E * batch1_byte_size" for cs
    using that assms(5,6)
    by (simp add: Execute_payload_def GetInputTensor_eq input_byte_size_nat loop_whole
        consumed_twice split: option.splits)
  have "map_option (\<lambda>(acc', p'). (acc', error_code p', output_log p'))
           (Execute_payload mbs pidx acc
              (p\<lparr>input_context := (input_context p)(''INPUT'' := map Chunk cs1)\<rparr>)) =
         map_option (\<lambda>(acc', p'). (acc', error_code p', output_log p'))
           (Execute_payload mbs pidx acc
              (p\<lparr>input_context := (input_context p)(''INPUT'' := map Chunk cs2)\<rparr>))"
    unfolding body [OF assms(2) l(1)] body [OF assms(3) l(2)] assms(1) ..
  moreover from g [OF assms(3) l(2)] assms(1)
  have "GetInputTensor (ictx(name := map Chunk cs2)) name (E * batch1_byte_size) input =
           Some (Success, input @ concat cs1, ictx(name := []))" by simp
  ultimately show ?thesis using g [OF assms(2) l(1)] by simp
qed

section \<open>The state transition on an empty INPUT\<close>

text \<open>
  C1 says that a step with \<open>ready != 0\<close> and \<open>start != 0\<close> sets the accumulator to the
  sum of all elements of INPUT, which is 0 for an INPUT without elements. The code
  reads \<open>input[0]\<close> first: for a start request whose INPUT has the shape \<open>[0]\<close> the
  assembly succeeds with an empty buffer and the call has no defined result. The other
  branch, \<open>start == 0\<close>, adds the empty sum and outputs the accumulator.
\<close>

theorem start_with_empty_INPUT_undefined:
  "input_element_cnt (inputs (request 1 1 [])) = Some 0 \<and>
   assembly (request 1 1 []) ''INPUT'' 0 = Some (Success, []) \<and>
   Execute (Context_new 4 0) [request 1 1 []] = None \<and>
   (case Execute (Context_new 4 0) [request 0 1 []] of
      None \<Rightarrow> False
    | Some r \<Rightarrow> accumulator (context_out r) = [0, 0, 0, 0] \<and>
        output_log (payloads_out r ! 0) = [GetOutput ''OUTPUT'' [1, 0] 4, Memcpy 0])"
  by code_simp

text \<open>
  C2 says that after a start step and \<open>k\<close> further steps the output is the sum of the
  elements of all \<open>k + 1\<close> INPUT vectors. With a start step whose INPUT is empty and one
  further step with INPUT \<open>[5]\<close> that sum is 5: the first call has no defined result,
  and so the sequence has none. With the start INPUT \<open>[0]\<close> the outputs are 0 and 5.
\<close>

theorem sequence_from_empty_start_undefined:
  "Execute_calls (Context_new 4 0) [[request 1 1 []], [request 0 1 [5]]] = None \<and>
   (case Execute_calls (Context_new 4 0) [[request 1 1 [0]], [request 0 1 [5]]] of
      None \<Rightarrow> False
    | Some rs \<Rightarrow> map (\<lambda>r. output_log (payloads_out r ! 0)) rs =
        [[GetOutput ''OUTPUT'' [1, 1] 4, Memcpy 0], [GetOutput ''OUTPUT'' [1, 1] 4, Memcpy 5]])"
  by code_simp

section \<open>The state transition on an INPUT with elements\<close>

text \<open>
  Reading element \<open>e\<close> of a buffer of \<open>n\<close> elements gives the element, and the loops
  of the update add up the elements.
\<close>

lemma read_int32_0:
  "read_int32 (b0 # b1 # b2 # b3 # rest) 0 =
     Some (ucast b0 + 256 * ucast b1 + 65536 * ucast b2 + 16777216 * ucast b3)"
  by (simp add: read_int32_def)

lemma read_int32_Suc:
  "read_int32 (b0 # b1 # b2 # b3 # rest) (Suc e) = read_int32 rest e"
proof -
  have "4 * Suc e = Suc (Suc (Suc (Suc (4 * e))))" by simp
  then have "drop (4 * Suc e) (b0 # b1 # b2 # b3 # rest) = drop (4 * e) rest"
    by (simp only: drop_Suc_Cons)
  then show ?thesis by (simp only: read_int32_def)
qed

lemma four_bytes:
  assumes "length buffer = 4 * Suc n"
  obtains b0 b1 b2 b3 rest where "buffer = b0 # b1 # b2 # b3 # rest" "length rest = 4 * n"
proof -
  from assms obtain b0 r0 where "buffer = b0 # r0" "length r0 = 4 * n + 3" by (cases buffer) auto
  moreover then obtain b1 r1 where "r0 = b1 # r1" "length r1 = 4 * n + 2" by (cases r0) auto
  moreover then obtain b2 r2 where "r1 = b2 # r2" "length r2 = 4 * n + 1" by (cases r1) auto
  moreover then obtain b3 r3 where "r2 = b3 # r3" "length r3 = 4 * n" by (cases r2) auto
  ultimately show ?thesis using that by simp
qed

lemma int32s_elements:
  "length buffer = 4 * n \<Longrightarrow>
   length (int32s buffer) = n \<and> (\<forall>e<n. read_int32 buffer e = Some (int32s buffer ! e))"
proof (induction n arbitrary: buffer)
  case 0
  then show ?case by simp
next
  case (Suc n)
  from Suc.prems obtain b0 b1 b2 b3 rest where
    buf: "buffer = b0 # b1 # b2 # b3 # rest" and rest: "length rest = 4 * n"
    by (rule four_bytes)
  from Suc.IH [OF rest] have ih: "length (int32s rest) = n"
    "\<And>e. e < n \<Longrightarrow> read_int32 rest e = Some (int32s rest ! e)" by simp_all
  have "read_int32 buffer e = Some (int32s buffer ! e)" if "e < Suc n" for e
  proof (cases e)
    case 0
    with buf show ?thesis by (simp add: read_int32_0)
  next
    case (Suc m)
    with that buf ih(2) [of m] show ?thesis by (simp add: read_int32_Suc)
  qed
  with buf ih(1) show ?case by simp
qed

lemma add_elements_sum:
  assumes "length buffer = 4 * n"
  shows "i \<le> n \<Longrightarrow> add_elements buffer [i..<n] a = Some (a + sum_list (drop i (int32s buffer)))"
proof (induction "n - i" arbitrary: i a)
  case 0
  with int32s_elements [OF assms] show ?case by simp
next
  case (Suc d)
  then have i: "i < n" by simp
  with int32s_elements [OF assms] have
    rd: "read_int32 buffer i = Some (int32s buffer ! i)" and len: "i < length (int32s buffer)"
    by simp_all
  from Suc.hyps(2) i have "d = n - Suc i" "Suc i \<le> n" by simp_all
  from Suc.hyps(1) [OF this] have
    "add_elements buffer [Suc i..<n] (a + int32s buffer ! i) =
       Some (a + int32s buffer ! i + sum_list (drop (Suc i) (int32s buffer)))" .
  with i rd Cons_nth_drop_Suc [OF len, symmetric] show ?case
    by (simp add: upt_conv_Cons add.assoc)
qed

lemma update_accumulator_add:
  assumes "length input = 4 * n"
  shows "update_accumulator 0 a (int n) input = Some (a + sum_list (int32s input))"
  using add_elements_sum [OF assms, of 0 a] by (simp add: update_accumulator_def)

lemma update_accumulator_set:
  assumes "length input = 4 * n" and "0 < n" and "start \<noteq> 0"
  shows "update_accumulator start a (int n) input = Some (sum_list (int32s input))"
proof -
  from int32s_elements [OF assms(1)] assms(2) have
    rd: "read_int32 input 0 = Some (int32s input ! 0)" and len: "0 < length (int32s input)"
    by simp_all
  from add_elements_sum [OF assms(1), of 1 "int32s input ! 0"] assms(2)
  have "add_elements input [1..<n] (int32s input ! 0) =
      Some (int32s input ! 0 + sum_list (drop 1 (int32s input)))" by simp
  moreover from Cons_nth_drop_Suc [OF len]
  have "sum_list (int32s input) = sum_list (int32s input ! 0 # drop (Suc 0) (int32s input))"
    by simp
  ultimately show ?thesis using rd assms(3)
    by (simp add: update_accumulator_def)
qed

lemma is_stepD:
  assumes "is_step p start ready xs"
  obtains sb rb ib s r where
    "assembles p (int (length xs)) sb rb ib"
    "read_int32 sb 0 = Some s" "(s \<noteq> 0) = start"
    "read_int32 rb 0 = Some r" "(r \<noteq> 0) = ready"
    "int32s ib = xs" "length ib = 4 * length xs"
proof -
  from assms have l: "length xs < 2 ^ 62" by (simp add: is_step_def)
  let ?S = "assembly p ''START'' batch1_byte_size"
  let ?R = "assembly p ''READY'' batch1_byte_size"
  let ?I = "assembly p ''INPUT'' (length xs * batch1_byte_size)"
  from assms obtain e1 sb where S: "?S = Some (e1, sb)"
    by (cases ?S) (auto simp: is_step_def)
  from assms S obtain e2 rb where R: "?R = Some (e2, rb)"
    by (cases ?R) (auto simp: is_step_def)
  from assms S R obtain e3 ib where I: "?I = Some (e3, ib)"
    by (cases ?I) (auto simp: is_step_def)
  from assms S R I have a: "assembles p (int (length xs)) sb rb ib"
    and rest: "(case read_int32 sb 0 of None \<Rightarrow> False | Some s \<Rightarrow> (s \<noteq> 0) = start)"
      "(case read_int32 rb 0 of None \<Rightarrow> False | Some r \<Rightarrow> (r \<noteq> 0) = ready)"
      "int32s ib = xs"
    by (simp_all add: is_step_def)
  from rest(1) obtain s where s: "read_int32 sb 0 = Some s" "(s \<noteq> 0) = start"
    by (auto split: option.splits)
  from rest(2) obtain r where r: "read_int32 rb 0 = Some r" "(r \<noteq> 0) = ready"
    by (auto split: option.splits)
  from assembles_lengths(3) [OF a] l have "length ib = 4 * length xs"
    by (simp add: input_byte_size_nat batch1_byte_size_def)
  with a s r rest(3) that show ?thesis by blast
qed

text \<open>
  The three cases of the state transition, for a step with the INPUT vector \<open>xs\<close>:
  not ready, nothing changes; ready without start, the sum of \<open>xs\<close> is added to the
  accumulator of the slot; ready with start and \<open>xs\<close> not empty, the accumulator is
  set to the sum of \<open>xs\<close>. In the last two cases the new value goes to the output.
\<close>

lemma Execute_payload_not_ready:
  assumes "is_step p start False xs"
  shows "Execute_payload mbs pidx acc p = Some (acc, consumed p)"
proof -
  from assms obtain sb rb ib r where
    "assembles p (int (length xs)) sb rb ib" "read_int32 rb 0 = Some r" "(r \<noteq> 0) = False"
    by (rule is_stepD)
  then show ?thesis
    by (simp add: Execute_payload_assembles sequence_step_not_ready consumed_def)
qed

lemma Execute_payload_add:
  assumes "is_step p False True xs" and "pidx < length acc"
  shows "Execute_payload mbs pidx acc p =
           Some (acc[pidx := acc ! pidx + sum_list xs],
                 write_output mbs (int (length xs)) (acc ! pidx + sum_list xs) (consumed p))"
proof -
  from assms(1) obtain sb rb ib s r where
    a: "assembles p (int (length xs)) sb rb ib" and
    s: "read_int32 sb 0 = Some s" "(s \<noteq> 0) = False" and
    r: "read_int32 rb 0 = Some r" "(r \<noteq> 0) = True" and
    x: "int32s ib = xs" "length ib = 4 * length xs"
    by (rule is_stepD)
  from s(2) have "s = 0" by simp
  with update_accumulator_add [OF x(2), of "acc ! pidx"] x(1)
  have "update_accumulator s (acc ! pidx) (int (length xs)) ib = Some (acc ! pidx + sum_list xs)"
    by simp
  with a s(1) r assms(2) show ?thesis
    by (simp add: Execute_payload_assembles sequence_step_ready consumed_def)
qed

lemma Execute_payload_set:
  assumes "is_step p True True xs" and "xs \<noteq> []" and "pidx < length acc"
  shows "Execute_payload mbs pidx acc p =
           Some (acc[pidx := sum_list xs],
                 write_output mbs (int (length xs)) (sum_list xs) (consumed p))"
proof -
  from assms(1) obtain sb rb ib s r where
    a: "assembles p (int (length xs)) sb rb ib" and
    s: "read_int32 sb 0 = Some s" "(s \<noteq> 0) = True" and
    r: "read_int32 rb 0 = Some r" "(r \<noteq> 0) = True" and
    x: "int32s ib = xs" "length ib = 4 * length xs"
    by (rule is_stepD)
  from s(2) assms(2) update_accumulator_set [OF x(2), of s "acc ! pidx"] x(1)
  have "update_accumulator s (acc ! pidx) (int (length xs)) ib = Some (sum_list xs)"
    by simp
  with a s(1) r assms(3) show ?thesis
    by (simp add: Execute_payload_assembles sequence_step_ready consumed_def)
qed

text \<open>The value handed to \<open>write_output\<close> is the one copied to a buffer the sink provides.\<close>

lemma write_output_emits:
  assumes "error_code p = Success" and "required_output_names p \<noteq> []"
    and "output_context p (hd (required_output_names p))
           (if mbs = 0 then [cnt] else [1, cnt]) batch1_byte_size = SinkBuffer"
  shows "output_log (write_output mbs cnt output p) =
           output_log p @ [GetOutput (hd (required_output_names p))
             (if mbs = 0 then [cnt] else [1, cnt]) batch1_byte_size, Memcpy output]"
  using assms by (auto simp: write_output_def Let_def)

text \<open>Calls with one payload each work on slot 0.\<close>

lemma Execute_single:
  assumes "accumulator ctx \<noteq> []"
    and "Execute_payload (max_batch_size ctx) 0 (accumulator ctx) p = Some (acc', p')"
  shows "Execute ctx [p] =
           Some \<lparr>ret = Success, context_out = ctx\<lparr>accumulator := acc'\<rparr>, payloads_out = [p'],
                 slept_ms = (if execute_delay_ms ctx > 0 then execute_delay_ms ctx else 0)\<rparr>"
  using assms by (cases "accumulator ctx") (simp_all add: Execute_def)

lemma Execute_calls_add:
  assumes "list_all2 (\<lambda>p xs. is_step p False True xs) ps xss"
  shows "accumulator ctx \<noteq> [] \<Longrightarrow>
         \<exists>rs. Execute_calls ctx (map (\<lambda>p. [p]) ps) = Some rs \<and> length rs = length ps \<and>
           (\<forall>k<length ps.
              accumulator (context_out (rs ! k)) ! 0 =
                accumulator ctx ! 0 + sum_list (concat (take (Suc k) xss)) \<and>
              payloads_out (rs ! k) =
                [write_output (max_batch_size ctx) (int (length (xss ! k)))
                   (accumulator ctx ! 0 + sum_list (concat (take (Suc k) xss)))
                   (consumed (ps ! k))])"
  using assms
proof (induction ps xss arbitrary: ctx rule: list_all2_induct)
  case Nil
  then show ?case by simp
next
  case (Cons p ps xs xss)
  let ?a = "accumulator ctx ! 0 + sum_list xs"
  let ?p' = "write_output (max_batch_size ctx) (int (length xs)) ?a (consumed p)"
  let ?ctx' = "ctx\<lparr>accumulator := (accumulator ctx)[0 := ?a]\<rparr>"
  let ?r = "\<lparr>ret = Success, context_out = ?ctx', payloads_out = [?p'],
             slept_ms = (if execute_delay_ms ctx > 0 then execute_delay_ms ctx else 0)\<rparr>"
  from Cons.prems have pos: "0 < length (accumulator ctx)" by simp
  from Execute_payload_add [OF Cons.hyps(1) pos, of "max_batch_size ctx"] Cons.prems
  have call: "Execute ctx [p] = Some ?r" by (simp add: Execute_single)
  from Cons.prems have "accumulator ?ctx' \<noteq> []" by simp
  from Cons.IH [OF this] obtain rs where
    rs: "Execute_calls ?ctx' (map (\<lambda>p. [p]) ps) = Some rs" "length rs = length ps"
      "\<And>k. k < length ps \<Longrightarrow>
         accumulator (context_out (rs ! k)) ! 0 = ?a + sum_list (concat (take (Suc k) xss)) \<and>
         payloads_out (rs ! k) =
           [write_output (max_batch_size ctx) (int (length (xss ! k)))
              (?a + sum_list (concat (take (Suc k) xss))) (consumed (ps ! k))]"
    using pos by auto
  have "accumulator (context_out ((?r # rs) ! k)) ! 0 =
          accumulator ctx ! 0 + sum_list (concat (take (Suc k) (xs # xss))) \<and>
        payloads_out ((?r # rs) ! k) =
          [write_output (max_batch_size ctx) (int (length ((xs # xss) ! k)))
             (accumulator ctx ! 0 + sum_list (concat (take (Suc k) (xs # xss))))
             (consumed ((p # ps) ! k))]"
    if "k < length (p # ps)" for k
  proof (cases k)
    case 0
    with pos show ?thesis by simp
  next
    case (Suc n)
    with that rs(3) [of n] show ?thesis by (simp add: add.assoc)
  qed
  with call rs(1,2) show ?case by simp
qed

text \<open>
  A start step with a non-empty INPUT followed by steps with ready and without start:
  after step \<open>k\<close> the accumulator, which is the value output, is the sum of the
  elements of the INPUT vectors of the steps 0 to \<open>k\<close>.
\<close>

lemma Execute_calls_sum:
  assumes "accumulator ctx \<noteq> []"
    and "is_step p0 True True xs0" and "xs0 \<noteq> []"
    and "list_all2 (\<lambda>p xs. is_step p False True xs) ps xss"
  shows "\<exists>rs. Execute_calls ctx (map (\<lambda>p. [p]) (p0 # ps)) = Some rs \<and>
           length rs = Suc (length ps) \<and>
           (\<forall>k\<le>length ps.
              accumulator (context_out (rs ! k)) ! 0 =
                sum_list (concat (take (Suc k) (xs0 # xss))) \<and>
              payloads_out (rs ! k) =
                [write_output (max_batch_size ctx) (int (length ((xs0 # xss) ! k)))
                   (sum_list (concat (take (Suc k) (xs0 # xss))))
                   (consumed ((p0 # ps) ! k))])"
proof -
  let ?a = "sum_list xs0"
  let ?p' = "write_output (max_batch_size ctx) (int (length xs0)) ?a (consumed p0)"
  let ?ctx' = "ctx\<lparr>accumulator := (accumulator ctx)[0 := ?a]\<rparr>"
  let ?r = "\<lparr>ret = Success, context_out = ?ctx', payloads_out = [?p'],
             slept_ms = (if execute_delay_ms ctx > 0 then execute_delay_ms ctx else 0)\<rparr>"
  from assms(1) have pos: "0 < length (accumulator ctx)" by simp
  from Execute_payload_set [OF assms(2,3) pos, of "max_batch_size ctx"] assms(1)
  have call: "Execute ctx [p0] = Some ?r" by (simp add: Execute_single)
  from assms(1) have "accumulator ?ctx' \<noteq> []" by simp
  from Execute_calls_add [OF assms(4) this] obtain rs where
    rs: "Execute_calls ?ctx' (map (\<lambda>p. [p]) ps) = Some rs" "length rs = length ps"
      "\<And>k. k < length ps \<Longrightarrow>
         accumulator (context_out (rs ! k)) ! 0 = ?a + sum_list (concat (take (Suc k) xss)) \<and>
         payloads_out (rs ! k) =
           [write_output (max_batch_size ctx) (int (length (xss ! k)))
              (?a + sum_list (concat (take (Suc k) xss))) (consumed (ps ! k))]"
    using pos by auto
  have "accumulator (context_out ((?r # rs) ! k)) ! 0 =
          sum_list (concat (take (Suc k) (xs0 # xss))) \<and>
        payloads_out ((?r # rs) ! k) =
          [write_output (max_batch_size ctx) (int (length ((xs0 # xss) ! k)))
             (sum_list (concat (take (Suc k) (xs0 # xss))))
             (consumed ((p0 # ps) ! k))]"
    if "k \<le> length ps" for k
  proof (cases k)
    case 0
    with pos show ?thesis by simp
  next
    case (Suc n)
    with that rs(3) [of n] show ?thesis by simp
  qed
  with call rs(1,2) show ?thesis by simp
qed

section \<open>The sample requests are steps\<close>

text \<open>
  The four bytes of an \<open>int32_t\<close> read back give the value, so the payload
  \<open>request start ready xs\<close> is a step with these control values and this INPUT.
\<close>

lemma low_byte: "(ucast (ucast w :: byte) :: int32) = take_bit 8 w"
  by (rule bit_word_eqI) (auto simp: bit_simps)

lemma split_byte: "(w :: int32) = take_bit 8 w + 256 * drop_bit 8 w"
  using bits_ident [of 8 w] by (simp add: push_bit_eq_mult ac_simps)

lemma top_byte: "take_bit 8 (drop_bit 24 (w :: int32)) = drop_bit 24 w"
  by (rule bit_word_eqI) (auto simp: bit_simps dest: bit_imp_le_length)

lemma int32_bytes_inverse: "read_int32 (int32_bytes v @ rest) 0 = Some v"
proof -
  have "v = take_bit 8 v + 256 * drop_bit 8 v" by (rule split_byte)
  also have "drop_bit 8 v = take_bit 8 (drop_bit 8 v) + 256 * drop_bit 16 v"
    using split_byte [of "drop_bit 8 v"] by (simp add: drop_bit_drop_bit)
  also have "drop_bit 16 v = take_bit 8 (drop_bit 16 v) + 256 * drop_bit 24 v"
    using split_byte [of "drop_bit 16 v"] by (simp add: drop_bit_drop_bit)
  finally have "v = take_bit 8 v + 256 * take_bit 8 (drop_bit 8 v) +
      65536 * take_bit 8 (drop_bit 16 v) + 16777216 * take_bit 8 (drop_bit 24 v)"
    by (simp add: algebra_simps top_byte)
  then show ?thesis
    by (simp add: int32_bytes_def read_int32_def low_byte)
qed



lemma int32s_int32_bytes: "int32s (int32_bytes v @ rest) = v # int32s rest"
  using int32_bytes_inverse [of v rest]
  by (simp add: int32_bytes_def read_int32_def)

lemma int32s_tensor_bytes: "int32s (tensor_bytes xs) = xs"
proof (induction xs)
  case Nil
  then show ?case by (simp add: tensor_bytes_def)
next
  case (Cons x xs)
  then show ?case using int32s_int32_bytes [of x "tensor_bytes xs"]
    by (simp add: tensor_bytes_def)
qed

lemma length_tensor_bytes: "length (tensor_bytes xs) = length xs * batch1_byte_size"
  by (induction xs) (simp_all add: tensor_bytes_def int32_bytes_def batch1_byte_size_def)

lemma request_assembly:
  "assembly (request s r xs) ''START'' batch1_byte_size = Some (Success, int32_bytes s)"
  "assembly (request s r xs) ''READY'' batch1_byte_size = Some (Success, int32_bytes r)"
  "assembly (request s r xs) ''INPUT'' (length xs * batch1_byte_size) = Some (Success, tensor_bytes xs)"
proof -
  show "assembly (request s r xs) ''START'' batch1_byte_size = Some (Success, int32_bytes s)"
    "assembly (request s r xs) ''READY'' batch1_byte_size = Some (Success, int32_bytes r)"
    by (simp_all add: assembly_eq request_def chunked_source_def int32_bytes_def
        batch1_byte_size_def read_int32_def)
  show "assembly (request s r xs) ''INPUT'' (length xs * batch1_byte_size) = Some (Success, tensor_bytes xs)"
  proof (cases xs)
    case Nil
    then show ?thesis
      by (simp add: assembly_eq request_def chunked_source_def tensor_bytes_def)
  next
    case (Cons x ys)
    then have "whole_chunks [tensor_bytes xs]"
      by (simp add: tensor_bytes_def int32_bytes_def)
    from loop_whole [OF this, of "length xs * batch1_byte_size" "[]"] Cons show ?thesis
      by (simp add: assembly_eq request_def chunked_source_def length_tensor_bytes)
  qed
qed

lemma is_step_request:
  assumes "length xs < 2 ^ 62"
  shows "is_step (request s r xs) (s \<noteq> 0) (r \<noteq> 0) xs"
  using assms int32_bytes_inverse [of s "[]"] int32_bytes_inverse [of r "[]"]
  by (simp add: is_step_def assembles_def request_assembly input_byte_size_nat int32s_tensor_bytes)
    (simp add: request_def)

text \<open>
  The scenario of a start step with INPUT \<open>[2, 3, 4]\<close> and two further steps: the
  outputs are 9, 12 and 17.
\<close>

lemma Execute_calls_sum_example:
  "\<exists>rs. Execute_calls (Context_new 4 0)
          [[request 1 1 [2, 3, 4]], [request 0 1 [1, 1, 1]], [request 0 1 [5]]] = Some rs \<and>
        map (\<lambda>r. accumulator (context_out r) ! 0) rs = [9, 12, 17] \<and>
        map (\<lambda>r. map output_log (payloads_out r)) rs =
          [[[GetOutput ''OUTPUT'' [1, 3] 4, Memcpy 9]],
           [[GetOutput ''OUTPUT'' [1, 3] 4, Memcpy 12]],
           [[GetOutput ''OUTPUT'' [1, 1] 4, Memcpy 17]]]"
proof -
  have "(case Execute_calls (Context_new 4 0)
          [[request 1 1 [2, 3, 4]], [request 0 1 [1, 1, 1]], [request 0 1 [5]]] of
        None \<Rightarrow> False
      | Some rs \<Rightarrow> map (\<lambda>r. accumulator (context_out r) ! 0) rs = [9, 12, 17] \<and>
        map (\<lambda>r. map output_log (payloads_out r)) rs =
          [[[GetOutput ''OUTPUT'' [1, 3] 4, Memcpy 9]],
           [[GetOutput ''OUTPUT'' [1, 3] 4, Memcpy 12]],
           [[GetOutput ''OUTPUT'' [1, 1] 4, Memcpy 17]]])"
    by code_simp
  then show ?thesis by (auto split: option.splits)
qed

end
